theory Spec2Isabelle
  imports Complex_Main "HOL-Library.AList" "HOL-Library.Sublist" "HOL-Library.Word"
begin

unbundle bit_operations_syntax

section \<open>z2pdf: room and exit extraction from a Z-machine story file\<close>

text \<open>
  The development embeds the two extractor classes of \<^verbatim>\<open>src/z2pdf/main.py\<close>:
  \<^verbatim>\<open>ZMapExtractor\<close> (room and object identification) and
  \<^verbatim>\<open>StaticExitExtractor\<close> (exit discovery and extraction).
  Python integers that are object numbers, property numbers, addresses and counts are
  never negative here and are modelled as \<open>nat\<close>; the bytes of the story image are
  \<open>8 word\<close>, read as \<open>nat\<close> by \<open>unat\<close> the way indexing a Python \<^verbatim>\<open>bytes\<close> gives
  an \<^verbatim>\<open>int\<close> in 0..255. A Python \<^verbatim>\<open>dict\<close> is an association list in insertion
  order (\<open>AList.update\<close> overwrites in place and appends a new key at the end, as
  \<^verbatim>\<open>d[k] = v\<close> does); a Python \<^verbatim>\<open>set\<close> is a HOL set.
\<close>

subsection \<open>The external parser and the data model\<close>

text \<open>
  \<^verbatim>\<open>zparser.ZParser\<close> is not code of this repository: its interface is taken as a
  parameter. \<^verbatim>\<open>get_object\<close> returns a \<^verbatim>\<open>ZObject\<close>, or \<^verbatim>\<open>None\<close>, or raises one
  of the two exceptions its callers catch; \<^verbatim>\<open>get_object_name\<close> returns a string
  (\<^verbatim>\<open>None\<close> is falsy like the empty string and is represented by it) or raises;
  \<^verbatim>\<open>get_dictionary_words\<close> returns the list of the dictionary's words or raises.
  The parser reads the same byte buffer \<^verbatim>\<open>data\<close> the extractors hold.
\<close>

type_synonym byte = "8 word"

datatype error = IndexError | StructError

record zobject =
  parent :: nat
  properties :: nat

record zparser =
  version :: nat
  dictionary :: nat
  get_object :: "nat \<Rightarrow> error + zobject option"
  get_object_name :: "nat \<Rightarrow> error + string"
  get_dictionary_words :: "error + string list"

text \<open>
  Python's \<^verbatim>\<open>str\<close> methods consult the Unicode tables of the interpreter; they are
  parameters too. A \<^verbatim>\<open>str\<close> is a \<open>string\<close>, one \<open>char\<close> for each character.
\<close>

record pystr =
  isprintable :: "char \<Rightarrow> bool"
  isalnum :: "char \<Rightarrow> bool"
  isspace :: "char \<Rightarrow> bool"
  lower :: "string \<Rightarrow> string"

definition strip :: "pystr \<Rightarrow> string \<Rightarrow> string" where
  "strip U s = rev (dropWhile (isspace U) (rev (dropWhile (isspace U) s)))"

text \<open>
  The dataclass \<^verbatim>\<open>Room\<close>; its fields carry the prefix \<open>r_\<close>, and the layout
  coordinates are left out.
\<close>

record room =
  r_obj_num :: nat
  r_name :: string
  r_exits :: "(string \<times> nat) list"
  r_objects :: "string list"

type_synonym rooms = "(nat \<times> room) list"

text \<open>A slice \<^verbatim>\<open>data[a:b]\<close> with \<open>0 \<le> a\<close>: it never raises and stops at the end.\<close>

definition slice :: "'a list \<Rightarrow> nat \<Rightarrow> nat \<Rightarrow> 'a list" where
  "slice xs a b = take (b - a) (drop a xs)"

subsection \<open>StaticExitExtractor._get_object_properties\<close>

text \<open>
  The \<^verbatim>\<open>while\<close> loop. Its guard \<^verbatim>\<open>prop_addr < len(self.data) - 10\<close> compares
  integers; with \<open>prop_addr \<ge> 0\<close> it is \<open>prop_addr + 10 < length data\<close>.
\<close>

function props_loop :: "byte list \<Rightarrow> nat \<Rightarrow> (nat \<times> nat list) list \<Rightarrow> (nat \<times> nat list) list" where
  "props_loop data prop_addr props =
     (if prop_addr + 10 < length data then
        (let size_byte = unat (data ! prop_addr) in
         if size_byte = 0 then props
         else
           (let prop_num = size_byte AND 0x1F;
                prop_size = drop_bit 5 size_byte + 1;
                prop_data = map unat (slice data (prop_addr + 1) (prop_addr + 1 + prop_size))
            in props_loop data (prop_addr + 1 + prop_size)
                 (AList.update prop_num prop_data props)))
      else props)"
  by pat_completeness auto
termination
  by (relation "measure (\<lambda>(data, prop_addr, props). length data - prop_addr)") auto

declare props_loop.simps [simp del]

text \<open>
  The bare \<^verbatim>\<open>except\<close> swallows whatever \<^verbatim>\<open>get_object\<close> raises; \<^verbatim>\<open>props\<close> is still
  empty then.
\<close>

definition get_object_properties :: "zparser \<Rightarrow> byte list \<Rightarrow> nat \<Rightarrow> (nat \<times> nat list) list" where
  "get_object_properties P data n =
     (case get_object P n of
        Inl e \<Rightarrow> []
      | Inr None \<Rightarrow> []
      | Inr (Some obj) \<Rightarrow>
          (let prop_addr = properties obj in
           if prop_addr \<ge> length data then []
           else
             (let text_length = unat (data ! prop_addr);
                  prop_addr = prop_addr + 1 + text_length * 2
              in props_loop data prop_addr [])))"

subsection \<open>StaticExitExtractor._find_exit_properties\<close>

text \<open>The innermost loop, left by \<^verbatim>\<open>break\<close> at the first byte that is another room.\<close>

fun points_to_room :: "nat set \<Rightarrow> nat \<Rightarrow> nat list \<Rightarrow> bool" where
  "points_to_room room_objs room_num [] = False"
| "points_to_room room_objs room_num (byte_val # rest) =
     (if byte_val \<in> room_objs \<and> byte_val \<noteq> room_num then True
      else points_to_room room_objs room_num rest)"

fun scan_props :: "nat set \<Rightarrow> nat \<Rightarrow> (nat \<times> nat list) list \<Rightarrow> nat set \<Rightarrow> nat set" where
  "scan_props room_objs room_num [] exit_props = exit_props"
| "scan_props room_objs room_num ((prop_num, prop_data) # rest) exit_props =
     (if prop_num < 13 then scan_props room_objs room_num rest exit_props
      else if points_to_room room_objs room_num prop_data
      then scan_props room_objs room_num rest (insert prop_num exit_props)
      else scan_props room_objs room_num rest exit_props)"

fun find_exit_loop :: "zparser \<Rightarrow> byte list \<Rightarrow> nat set \<Rightarrow> nat list \<Rightarrow> nat set \<Rightarrow> nat set" where
  "find_exit_loop P data room_objs [] exit_props = exit_props"
| "find_exit_loop P data room_objs (room_num # rest) exit_props =
     find_exit_loop P data room_objs rest
       (scan_props room_objs room_num (get_object_properties P data room_num) exit_props)"

text \<open>\<^verbatim>\<open>self.room_objs\<close> is the field \<^verbatim>\<open>extract_exits\<close> sets before the call.\<close>

definition find_exit_properties :: "zparser \<Rightarrow> byte list \<Rightarrow> nat set \<Rightarrow> rooms \<Rightarrow> nat set" where
  "find_exit_properties P data room_objs rooms =
     find_exit_loop P data room_objs (map fst rooms) {}"

subsection \<open>StaticExitExtractor._extract_room_refs_from_property\<close>

text \<open>
  The multi-byte branch: the loop over \<^verbatim>\<open>prop_data\<close> with its two variables
  \<^verbatim>\<open>refs\<close> and \<^verbatim>\<open>seen\<close>.
\<close>

fun refs_loop :: "nat set \<Rightarrow> nat \<Rightarrow> nat list \<Rightarrow> nat list \<times> nat set \<Rightarrow> nat list \<times> nat set" where
  "refs_loop room_objs room_num [] (refs, seen) = (refs, seen)"
| "refs_loop room_objs room_num (byte_val # rest) (refs, seen) =
     (if byte_val \<in> room_objs \<and> byte_val \<noteq> room_num then
        (if byte_val \<notin> seen
         then refs_loop room_objs room_num rest (refs @ [byte_val], insert byte_val seen)
         else refs_loop room_objs room_num rest (refs, seen))
      else refs_loop room_objs room_num rest (refs, seen))"

definition extract_room_refs_from_property :: "nat set \<Rightarrow> nat list \<Rightarrow> nat \<Rightarrow> nat list" where
  "extract_room_refs_from_property room_objs prop_data room_num =
     (if length prop_data = 1 then
        (if prop_data ! 0 \<in> room_objs \<and> prop_data ! 0 \<noteq> room_num
         then [prop_data ! 0] else [])
      else fst (refs_loop room_objs room_num prop_data ([], {})))"

subsection \<open>StaticExitExtractor._get_property_to_word_mapping\<close>

text \<open>Indexing \<^verbatim>\<open>self.data[addr]\<close> outside a guard: it raises past the end.\<close>

definition read_data :: "byte list \<Rightarrow> nat \<Rightarrow> error + nat" where
  "read_data data addr =
     (if addr < length data then Inr (unat (data ! addr)) else Inl IndexError)"

text \<open>
  The dictionary header, as the first lines of the function read it: the entry length,
  the entry count (read, never used) and the address of the first entry.
\<close>

definition dict_header :: "zparser \<Rightarrow> byte list \<Rightarrow> error + (nat \<times> nat \<times> nat)" where
  "dict_header P data =
     (let dict_addr = dictionary P in
      case read_data data dict_addr of
        Inl e \<Rightarrow> Inl e
      | Inr num_seps \<Rightarrow>
          (let dict_addr = dict_addr + 1 + num_seps in
           case read_data data dict_addr of
             Inl e \<Rightarrow> Inl e
           | Inr entry_length \<Rightarrow>
               (case read_data data (dict_addr + 1) of
                  Inl e \<Rightarrow> Inl e
                | Inr hi \<Rightarrow>
                    (case read_data data (dict_addr + 2) of
                       Inl e \<Rightarrow> Inl e
                     | Inr lo \<Rightarrow>
                         (let num_entries = push_bit 8 hi OR lo;
                              dict_addr = dict_addr + 3
                          in Inr (entry_length, num_entries, dict_addr))))))"

text \<open>The extra bytes of entry \<open>i\<close>: \<^verbatim>\<open>list(self.data[addr + 4:addr + entry_length])\<close>.\<close>

definition entry_extra :: "byte list \<Rightarrow> nat \<Rightarrow> nat \<Rightarrow> nat \<Rightarrow> nat list" where
  "entry_extra data dict_addr entry_length i =
     (let addr = dict_addr + i * entry_length
      in map unat (slice data (addr + 4) (addr + entry_length)))"

fun extra_loop :: "string \<Rightarrow> nat list \<Rightarrow> (nat \<times> string) list \<Rightarrow> (nat \<times> string) list" where
  "extra_loop word [] prop_to_word = prop_to_word"
| "extra_loop word (potential_prop # rest) prop_to_word =
     (if 1 \<le> potential_prop \<and> potential_prop \<le> 31 then
        (if map_of prop_to_word potential_prop = None
         then extra_loop word rest (AList.update potential_prop word prop_to_word)
         else extra_loop word rest prop_to_word)
      else extra_loop word rest prop_to_word)"

text \<open>The loop over \<^verbatim>\<open>enumerate(words)\<close>, \<open>i\<close> the index of the head of the list.\<close>

fun words_loop ::
  "pystr \<Rightarrow> byte list \<Rightarrow> nat \<Rightarrow> nat \<Rightarrow> nat \<Rightarrow> string list \<Rightarrow> (nat \<times> string) list
     \<Rightarrow> (nat \<times> string) list" where
  "words_loop U data dict_addr entry_length i [] prop_to_word = prop_to_word"
| "words_loop U data dict_addr entry_length i (word # rest) prop_to_word =
     (let word = lower U (strip U word);
          extra = entry_extra data dict_addr entry_length i
      in words_loop U data dict_addr entry_length (i + 1) rest
           (extra_loop word extra prop_to_word))"

definition get_property_to_word_mapping ::
  "pystr \<Rightarrow> zparser \<Rightarrow> byte list \<Rightarrow> error + (nat \<times> string) list" where
  "get_property_to_word_mapping U P data =
     (case dict_header P data of
        Inl e \<Rightarrow> Inl e
      | Inr (entry_length, num_entries, dict_addr) \<Rightarrow>
          if entry_length \<le> 4 then Inr []
          else
            (case get_dictionary_words P of
               Inl e \<Rightarrow> Inl e
             | Inr words \<Rightarrow> Inr (words_loop U data dict_addr entry_length 0 words [])))"

subsection \<open>StaticExitExtractor.extract_exits\<close>

text \<open>Decimal rendering of a number, as the f-string \<^verbatim>\<open>f"p{prop_num}"\<close> formats it.\<close>

function str_nat :: "nat \<Rightarrow> string" where
  "str_nat n =
     (if n < 10 then [''0123456789'' ! n]
      else str_nat (n div 10) @ [''0123456789'' ! (n mod 10)])"
  by pat_completeness auto
termination
  by (relation "measure id") auto

declare str_nat.simps [simp del]

text \<open>\<^verbatim>\<open>prop_to_word.get(prop_num, f"p{prop_num}")\<close>\<close>

definition exit_word :: "(nat \<times> string) list \<Rightarrow> nat \<Rightarrow> string" where
  "exit_word prop_to_word prop_num =
     (case map_of prop_to_word prop_num of
        Some w \<Rightarrow> w
      | None \<Rightarrow> ''p'' @ str_nat prop_num)"

text \<open>
  The loop over \<^verbatim>\<open>dest_rooms\<close>; the state is the room's \<^verbatim>\<open>exits\<close> and the counter
  \<^verbatim>\<open>total_exits\<close>. It ends by \<^verbatim>\<open>break\<close> after the first write.
\<close>

fun dest_loop ::
  "(nat \<times> string) list \<Rightarrow> nat \<Rightarrow> nat list \<Rightarrow> (string \<times> nat) list \<times> nat
     \<Rightarrow> (string \<times> nat) list \<times> nat" where
  "dest_loop prop_to_word prop_num [] (exits, total_exits) = (exits, total_exits)"
| "dest_loop prop_to_word prop_num (dest # rest) (exits, total_exits) =
     (let word = exit_word prop_to_word prop_num in
      if map_of exits word = None
      then (AList.update word dest exits, total_exits + 1)
      else dest_loop prop_to_word prop_num rest (exits, total_exits))"

text \<open>The loop over \<^verbatim>\<open>exit_props\<close> for one room, in the order the set is iterated.\<close>

fun exit_props_loop ::
  "nat set \<Rightarrow> (nat \<times> string) list \<Rightarrow> (nat \<times> nat list) list \<Rightarrow> nat \<Rightarrow> nat list
     \<Rightarrow> (string \<times> nat) list \<times> nat \<Rightarrow> (string \<times> nat) list \<times> nat" where
  "exit_props_loop room_objs prop_to_word props room_num [] st = st"
| "exit_props_loop room_objs prop_to_word props room_num (prop_num # rest) st =
     (case map_of props prop_num of
        None \<Rightarrow> exit_props_loop room_objs prop_to_word props room_num rest st
      | Some prop_data \<Rightarrow>
          (let dest_rooms = extract_room_refs_from_property room_objs prop_data room_num
           in exit_props_loop room_objs prop_to_word props room_num rest
                (dest_loop prop_to_word prop_num dest_rooms st)))"

text \<open>
  The loop over \<^verbatim>\<open>rooms.items()\<close>: each room's \<^verbatim>\<open>exits\<close> is updated in place. The
  rooms are separate objects (\<^verbatim>\<open>_find_rooms\<close> builds a new \<^verbatim>\<open>Room\<close> with a new
  dictionary for every key), so updating one leaves the others as they are.
\<close>

fun rooms_loop ::
  "zparser \<Rightarrow> byte list \<Rightarrow> nat set \<Rightarrow> (nat \<times> string) list \<Rightarrow> nat list \<Rightarrow> rooms \<Rightarrow> nat
     \<Rightarrow> rooms \<times> nat" where
  "rooms_loop P data room_objs prop_to_word exit_props [] total_exits = ([], total_exits)"
| "rooms_loop P data room_objs prop_to_word exit_props ((room_num, room) # rest) total_exits =
     (let props = get_object_properties P data room_num;
          (exits', total_exits) =
             exit_props_loop room_objs prop_to_word props room_num exit_props
               (r_exits room, total_exits);
          (rest', total_exits) =
             rooms_loop P data room_objs prop_to_word exit_props rest total_exits
      in ((room_num, room\<lparr>r_exits := exits'\<rparr>) # rest', total_exits))"

text \<open>
  \<^verbatim>\<open>extract_exits\<close> returns the count and leaves the rooms mutated: the model returns
  both. The order in which Python iterates the set \<^verbatim>\<open>exit_props\<close> is the parameter
  \<open>set_iter\<close>. An exception of the dictionary decoding is not caught here.
\<close>

definition extract_exits ::
  "pystr \<Rightarrow> zparser \<Rightarrow> byte list \<Rightarrow> (nat set \<Rightarrow> nat list) \<Rightarrow> rooms \<Rightarrow> error + (nat \<times> rooms)" where
  "extract_exits U P data set_iter rooms =
     (let room_objs = fst ` set rooms in
      if room_objs = {} then Inr (0, rooms)
      else
        (let exit_props = find_exit_properties P data room_objs rooms in
         if exit_props = {} then Inr (0, rooms)
         else
           (case get_property_to_word_mapping U P data of
              Inl e \<Rightarrow> Inl e
            | Inr prop_to_word \<Rightarrow>
                (let prop_to_word = filter (\<lambda>(p, w). p \<in> exit_props) prop_to_word;
                     (rooms', total_exits) =
                        rooms_loop P data room_objs prop_to_word (set_iter exit_props) rooms 0
                 in Inr (total_exits, rooms')))))"

subsection \<open>The reads of the property decoders\<close>

text \<open>
  The same loop with a log of the addresses it asks the image for: the address of each
  indexed read and every address of the range of each slice, as requested.
\<close>

function props_loop_traced ::
  "byte list \<Rightarrow> nat \<Rightarrow> (nat \<times> nat list) list \<times> nat list \<Rightarrow> (nat \<times> nat list) list \<times> nat list" where
  "props_loop_traced data prop_addr (props, reads) =
     (if prop_addr + 10 < length data then
        (let size_byte = unat (data ! prop_addr);
             reads = reads @ [prop_addr]
         in
         if size_byte = 0 then (props, reads)
         else
           (let prop_num = size_byte AND 0x1F;
                prop_size = drop_bit 5 size_byte + 1;
                prop_data = map unat (slice data (prop_addr + 1) (prop_addr + 1 + prop_size));
                reads = reads @ [prop_addr + 1 ..< prop_addr + 1 + prop_size]
            in props_loop_traced data (prop_addr + 1 + prop_size)
                 (AList.update prop_num prop_data props, reads)))
      else (props, reads))"
  by pat_completeness auto
termination
  by (relation "measure (\<lambda>(data, prop_addr, st). length data - prop_addr)") auto

declare props_loop_traced.simps [simp del]

definition get_object_properties_traced ::
  "zparser \<Rightarrow> byte list \<Rightarrow> nat \<Rightarrow> (nat \<times> nat list) list \<times> nat list" where
  "get_object_properties_traced P data n =
     (case get_object P n of
        Inl e \<Rightarrow> ([], [])
      | Inr None \<Rightarrow> ([], [])
      | Inr (Some obj) \<Rightarrow>
          (let prop_addr = properties obj in
           if prop_addr \<ge> length data then ([], [])
           else
             (let text_length = unat (data ! prop_addr);
                  reads = [prop_addr];
                  prop_addr = prop_addr + 1 + text_length * 2
              in props_loop_traced data prop_addr ([], reads))))"

subsection \<open>ZMapExtractor._has_property\<close>

text \<open>
  \<^verbatim>\<open>self.parser.read_byte\<close> is the parser's bounds-checked read of the image; every
  call is logged. The result of \<^verbatim>\<open>_has_property\<close> is the first component.
\<close>

function has_property_loop ::
  "nat \<Rightarrow> byte list \<Rightarrow> nat \<Rightarrow> nat \<Rightarrow> nat list \<Rightarrow> bool \<times> nat list" where
  "has_property_loop ver data prop_num prop_addr reads =
     (if prop_addr < length data then
        (let size_byte = unat (data ! prop_addr);
             reads = reads @ [prop_addr]
         in
         if size_byte = 0 then (False, reads)
         else if ver \<le> 3 then
           (let p_num = size_byte AND 0x1F;
                p_size = drop_bit 5 size_byte + 1
            in if p_num = prop_num then (True, reads)
               else has_property_loop ver data prop_num (prop_addr + 1 + p_size) reads)
         else
           (let p_num = size_byte AND 0x3F in
            if size_byte AND 0x80 \<noteq> 0 then
              (let prop_addr = prop_addr + 1 in
               if prop_addr \<ge> length data then (False, reads)
               else
                 (let p_size = unat (data ! prop_addr) AND 0x3F;
                      reads = reads @ [prop_addr];
                      p_size = (if p_size = 0 then 64 else p_size)
                  in if p_num = prop_num then (True, reads)
                     else has_property_loop ver data prop_num (prop_addr + 1 + p_size) reads))
            else
              (let p_size = (if size_byte AND 0x40 = 0 then 1 else 2)
               in if p_num = prop_num then (True, reads)
                  else has_property_loop ver data prop_num (prop_addr + 1 + p_size) reads)))
      else (False, reads))"
  by pat_completeness auto
termination
  by (relation "measure (\<lambda>(ver, data, prop_num, prop_addr, reads). length data - prop_addr)") auto

declare has_property_loop.simps [simp del]

definition has_property_traced :: "zparser \<Rightarrow> byte list \<Rightarrow> nat \<Rightarrow> nat \<Rightarrow> bool \<times> nat list" where
  "has_property_traced P data n prop_num =
     (case get_object P n of
        Inl e \<Rightarrow> (False, [])
      | Inr None \<Rightarrow> (False, [])
      | Inr (Some obj) \<Rightarrow>
          (let prop_addr = properties obj in
           if prop_addr \<ge> length data then (False, [])
           else
             (let text_length = unat (data ! prop_addr);
                  reads = [prop_addr];
                  prop_addr = prop_addr + 1 + text_length * 2
              in has_property_loop (version P) data prop_num prop_addr reads)))"

definition has_property :: "zparser \<Rightarrow> byte list \<Rightarrow> nat \<Rightarrow> nat \<Rightarrow> bool" where
  "has_property P data n prop_num = fst (has_property_traced P data n prop_num)"

subsection \<open>ZMapExtractor._is_valid_name\<close>

text \<open>
  The test on one character, \<^verbatim>\<open>c.isprintable() and (c.isalnum() or c in ' -.,!?\'"')\<close>;
  the last two characters of the punctuation are the single and the double quote.
\<close>

definition valid_char :: "pystr \<Rightarrow> char \<Rightarrow> bool" where
  "valid_char U c =
     (isprintable U c \<and> (isalnum U c \<or> c \<in> set ('' -.,!?'' @ [CHR 0x27, CHR 0x22])))"

text \<open>
  Python divides the two counts as floats and compares with the float \<^verbatim>\<open>0.7\<close>. The
  quotient of two integers is rounded correctly and rounding is monotone, so for names
  of fewer than \<open>10\<^sup>1\<^sup>5\<close> characters the comparison agrees with the exact one,
  which is the one modelled.
\<close>

definition is_valid_name :: "pystr \<Rightarrow> string \<Rightarrow> bool" where
  "is_valid_name U name =
     (if name = [] then False
      else
        (let printable_count = length (filter (valid_char U) name);
             total_count = length name
         in total_count > 0 \<and> real printable_count / real total_count \<ge> 0.7))"

subsection \<open>ZMapExtractor._has_exit_properties\<close>

function has_exit_loop :: "nat \<Rightarrow> byte list \<Rightarrow> nat \<Rightarrow> nat \<Rightarrow> bool" where
  "has_exit_loop ver data prop_addr prop_count =
     (if prop_addr < length data then
        (let size_byte = unat (data ! prop_addr) in
         if size_byte = 0 then False
         else
           (let prop_count = prop_count + 1 in
            if ver \<le> 3 then
              (let prop_size = drop_bit 5 size_byte + 1;
                   prop_addr = prop_addr + 1 + prop_size
               in if prop_count > 3 then True
                  else has_exit_loop ver data prop_addr prop_count)
            else if size_byte AND 0x80 \<noteq> 0 then
              (if prop_addr + 1 \<ge> length data then False
               else
                 (let prop_size = unat (data ! (prop_addr + 1)) AND 0x3F;
                      prop_size = (if prop_size = 0 then 64 else prop_size);
                      prop_addr = prop_addr + 1;
                      prop_addr = prop_addr + 1 + prop_size
                  in if prop_count > 3 then True
                     else has_exit_loop ver data prop_addr prop_count))
            else
              (let prop_size = (if size_byte AND 0x40 = 0 then 1 else 2);
                   prop_addr = prop_addr + 1 + prop_size
               in if prop_count > 3 then True
                  else has_exit_loop ver data prop_addr prop_count)))
      else False)"
  by pat_completeness auto
termination
  by (relation "measure (\<lambda>(ver, data, prop_addr, prop_count). length data - prop_addr)") auto

declare has_exit_loop.simps [simp del]

definition has_exit_properties :: "zparser \<Rightarrow> byte list \<Rightarrow> nat \<Rightarrow> bool" where
  "has_exit_properties P data n =
     (case get_object P n of
        Inl e \<Rightarrow> False
      | Inr None \<Rightarrow> False
      | Inr (Some obj) \<Rightarrow>
          (let prop_addr = properties obj in
           if prop_addr \<ge> length data then False
           else
             (let text_length = unat (data ! prop_addr);
                  prop_addr = prop_addr + 1 + text_length * 2
              in has_exit_loop (version P) data prop_addr 0)))"

subsection \<open>ZMapExtractor._find_rooms\<close>

text \<open>
  The \<^verbatim>\<open>Counter\<close> of parents: a dictionary in insertion order. \<^verbatim>\<open>most_common(1)\<close> is
  the first entry, in that order, with the greatest count.
\<close>

definition counter_incr :: "nat \<Rightarrow> (nat \<times> nat) list \<Rightarrow> (nat \<times> nat) list" where
  "counter_incr k counts =
     AList.update k ((case map_of counts k of None \<Rightarrow> 0 | Some c \<Rightarrow> c) + 1) counts"

fun most_common_from :: "nat \<times> nat \<Rightarrow> (nat \<times> nat) list \<Rightarrow> nat \<times> nat" where
  "most_common_from best [] = best"
| "most_common_from best (kc # rest) =
     (if snd kc > snd best then most_common_from kc rest else most_common_from best rest)"

text \<open>
  The first pass; \<^verbatim>\<open>continue\<close> is the recursive call with the state unchanged. The list
  \<^verbatim>\<open>candidates\<close> is built and never read: it is left out.
\<close>

fun first_pass ::
  "pystr \<Rightarrow> zparser \<Rightarrow> byte list \<Rightarrow> nat list \<Rightarrow> (nat \<times> nat) list \<Rightarrow> (nat \<times> nat) list" where
  "first_pass U P data [] parent_counts = parent_counts"
| "first_pass U P data (obj_num # rest) parent_counts =
     (case get_object P obj_num of
        Inl e \<Rightarrow> first_pass U P data rest parent_counts
      | Inr None \<Rightarrow> first_pass U P data rest parent_counts
      | Inr (Some obj) \<Rightarrow>
          (case get_object_name P obj_num of
             Inl e \<Rightarrow> first_pass U P data rest parent_counts
           | Inr name \<Rightarrow>
               if name = [] \<or> strip U name = [] then first_pass U P data rest parent_counts
               else if \<not> is_valid_name U name then first_pass U P data rest parent_counts
               else if has_exit_properties P data obj_num
               then first_pass U P data rest (counter_incr (parent obj) parent_counts)
               else first_pass U P data rest parent_counts))"

fun second_pass :: "pystr \<Rightarrow> zparser \<Rightarrow> nat \<Rightarrow> nat list \<Rightarrow> rooms \<Rightarrow> rooms" where
  "second_pass U P rooms_container [] rooms = rooms"
| "second_pass U P rooms_container (obj_num # rest) rooms =
     (case get_object P obj_num of
        Inl e \<Rightarrow> second_pass U P rooms_container rest rooms
      | Inr None \<Rightarrow> second_pass U P rooms_container rest rooms
      | Inr (Some obj) \<Rightarrow>
          if parent obj \<noteq> rooms_container then second_pass U P rooms_container rest rooms
          else
            (case get_object_name P obj_num of
               Inl e \<Rightarrow> second_pass U P rooms_container rest rooms
             | Inr name \<Rightarrow>
                 if name = [] \<or> strip U name = []
                 then second_pass U P rooms_container rest rooms
                 else if \<not> is_valid_name U name
                 then second_pass U P rooms_container rest rooms
                 else second_pass U P rooms_container rest
                        (AList.update obj_num
                           \<lparr>r_obj_num = obj_num, r_name = name, r_exits = [], r_objects = []\<rparr>
                           rooms)))"

text \<open>The fallback scan: \<^verbatim>\<open>break\<close> returns the rooms as they are.\<close>

fun fallback_scan :: "pystr \<Rightarrow> zparser \<Rightarrow> nat list \<Rightarrow> rooms \<Rightarrow> rooms" where
  "fallback_scan U P [] rooms = rooms"
| "fallback_scan U P (obj_num # rest) rooms =
     (if obj_num \<in> fst ` set rooms then fallback_scan U P rest rooms
      else
        (case get_object P obj_num of
           Inl e \<Rightarrow> fallback_scan U P rest rooms
         | Inr None \<Rightarrow> rooms
         | Inr (Some obj) \<Rightarrow>
             (case get_object_name P obj_num of
                Inl e \<Rightarrow> fallback_scan U P rest rooms
              | Inr name \<Rightarrow>
                  if name = [] \<or> strip U name = [] then fallback_scan U P rest rooms
                  else if \<not> is_valid_name U name then fallback_scan U P rest rooms
                  else fallback_scan U P rest
                         (AList.update obj_num
                            \<lparr>r_obj_num = obj_num, r_name = name, r_exits = [], r_objects = []\<rparr>
                            rooms))))"

definition max_obj :: "zparser \<Rightarrow> nat" where
  "max_obj P = (if version P \<le> 3 then 255 else 2000)"

text \<open>
  The first two passes: the parents are counted, the container is chosen (27 when no
  parent was counted) and the objects under it are collected into \<^verbatim>\<open>self.rooms\<close>.
\<close>

definition rooms_container :: "pystr \<Rightarrow> zparser \<Rightarrow> byte list \<Rightarrow> nat" where
  "rooms_container U P data =
     (let parent_counts = first_pass U P data [1..<min (max_obj P) 256] []
      in case parent_counts of
           [] \<Rightarrow> 27
         | kc # rest \<Rightarrow> fst (most_common_from kc rest))"

definition cluster_rooms :: "pystr \<Rightarrow> zparser \<Rightarrow> byte list \<Rightarrow> rooms \<Rightarrow> rooms" where
  "cluster_rooms U P data rooms =
     second_pass U P (rooms_container U P data) [1..<min (max_obj P) 256] rooms"

text \<open>\<^verbatim>\<open>_find_rooms\<close>, from the rooms the extractor holds to those it holds afterwards.\<close>

definition find_rooms :: "pystr \<Rightarrow> zparser \<Rightarrow> byte list \<Rightarrow> rooms \<Rightarrow> rooms" where
  "find_rooms U P data rooms =
     (let rooms = cluster_rooms U P data rooms in
      if length rooms < 10
      then fallback_scan U P [142..<min (max_obj P) 300] rooms
      else rooms)"

subsection \<open>ZMapExtractor._find_objects\<close>

text \<open>The dataclass \<^verbatim>\<open>GameObject\<close>, its fields with the prefix \<open>g_\<close>.\<close>

record game_object =
  g_obj_num :: nat
  g_name :: string
  g_location :: nat

fun objects_loop ::
  "pystr \<Rightarrow> zparser \<Rightarrow> byte list \<Rightarrow> nat list \<Rightarrow> game_object list \<Rightarrow> game_object list" where
  "objects_loop U P data [] objs = objs"
| "objects_loop U P data (obj_num # rest) objs =
     (case get_object P obj_num of
        Inl e \<Rightarrow> objects_loop U P data rest objs
      | Inr None \<Rightarrow> objs
      | Inr (Some obj) \<Rightarrow>
          (case get_object_name P obj_num of
             Inl e \<Rightarrow> objects_loop U P data rest objs
           | Inr name \<Rightarrow>
               if name = [] \<or> strip U name = [] then objects_loop U P data rest objs
               else if \<not> is_valid_name U name then objects_loop U P data rest objs
               else
                 (let is_takable =
                        (has_property P data obj_num 5 \<or> has_property P data obj_num 6
                         \<or> has_property P data obj_num 9)
                  in if is_takable
                     then objects_loop U P data rest
                            (objs @ [\<lparr>g_obj_num = obj_num, g_name = name,
                                      g_location = parent obj\<rparr>])
                     else objects_loop U P data rest objs)))"

definition find_objects ::
  "pystr \<Rightarrow> zparser \<Rightarrow> byte list \<Rightarrow> rooms \<Rightarrow> game_object list \<Rightarrow> game_object list" where
  "find_objects U P data rooms objs =
     (if rooms = [] then objs
      else
        (let min_room_num = Min (fst ` set rooms)
         in objects_loop U P data [1..<min_room_num] objs))"

subsection \<open>Objects with a usable name\<close>

text \<open>
  An object that decodes and has a usable name: the test the three scans of
  \<^verbatim>\<open>_find_rooms\<close> and the scan of \<^verbatim>\<open>_find_objects\<close> share. An undecodable object is
  one for which \<^verbatim>\<open>get_object\<close> returns nothing.
\<close>

definition room_like :: "pystr \<Rightarrow> zparser \<Rightarrow> nat \<Rightarrow> bool" where
  "room_like U P n =
     (case get_object P n of
        Inr (Some obj) \<Rightarrow>
          (case get_object_name P n of
             Inr name \<Rightarrow> name \<noteq> [] \<and> strip U name \<noteq> [] \<and> is_valid_name U name
           | Inl e \<Rightarrow> False)
      | _ \<Rightarrow> False)"

definition parent_of :: "zparser \<Rightarrow> nat \<Rightarrow> nat option" where
  "parent_of P n =
     (case get_object P n of Inr (Some obj) \<Rightarrow> Some (parent obj) | _ \<Rightarrow> None)"

definition undecodable :: "zparser \<Rightarrow> nat \<Rightarrow> bool" where
  "undecodable P n = (get_object P n = Inr None)"

text \<open>
  The identifiers after the fallback scan as a function of the identifiers before it:
  the scan consults \<^verbatim>\<open>self.rooms\<close> for membership only.
\<close>

fun fallback_keys :: "pystr \<Rightarrow> zparser \<Rightarrow> nat list \<Rightarrow> nat set \<Rightarrow> nat set" where
  "fallback_keys U P [] K = K"
| "fallback_keys U P (n # ns) K =
     (if n \<in> K then fallback_keys U P ns K
      else if undecodable P n then K
      else if room_like U P n then fallback_keys U P ns (insert n K)
      else fallback_keys U P ns K)"

subsection \<open>Notions used to state the properties\<close>

text \<open>
  The list of first occurrences, in order: what a left-to-right scan that suppresses
  duplicates keeps.
\<close>

definition first_occurrences :: "'a list \<Rightarrow> 'a list" where
  "first_occurrences xs = rev (remdups (rev xs))"

text \<open>
  Writing a candidate exit into a room's mapping when its label is still free: the
  first write of a label wins.
\<close>

definition write_first :: "(string \<times> nat) list \<Rightarrow> string \<times> nat \<Rightarrow> (string \<times> nat) list" where
  "write_first room_exits c = (if map_of room_exits (fst c) = None then room_exits @ [c] else room_exits)"

text \<open>
  The candidate exits of one room: for each exit property, in iteration order, that the
  room carries and whose value names at least one other room, the pair of its label and
  the first destination.
\<close>

definition exit_candidates ::
  "nat set \<Rightarrow> (nat \<times> string) list \<Rightarrow> (nat \<times> nat list) list \<Rightarrow> nat \<Rightarrow> nat list
     \<Rightarrow> (string \<times> nat) list" where
  "exit_candidates room_objs prop_to_word props room_num exit_props =
     List.map_filter
       (\<lambda>prop_num.
          case map_of props prop_num of
            None \<Rightarrow> None
          | Some prop_data \<Rightarrow>
              (case extract_room_refs_from_property room_objs prop_data room_num of
                 [] \<Rightarrow> None
               | dest # _ \<Rightarrow> Some (exit_word prop_to_word prop_num, dest)))
       exit_props"

text \<open>
  The word hints \<^verbatim>\<open>extract_exits\<close> works with: the dictionary mapping filtered to
  the discovered exit properties.
\<close>

definition word_hints :: "pystr \<Rightarrow> zparser \<Rightarrow> byte list \<Rightarrow> nat set \<Rightarrow> (nat \<times> string) list" where
  "word_hints U P data exit_props =
     (case get_property_to_word_mapping U P data of
        Inl e \<Rightarrow> []
      | Inr prop_to_word \<Rightarrow> filter (\<lambda>(p, w). p \<in> exit_props) prop_to_word)"

definition room_candidates ::
  "pystr \<Rightarrow> zparser \<Rightarrow> byte list \<Rightarrow> (nat set \<Rightarrow> nat list) \<Rightarrow> rooms \<Rightarrow> nat \<Rightarrow> (string \<times> nat) list" where
  "room_candidates U P data set_iter rooms room_num =
     (let room_objs = fst ` set rooms;
          exit_props = find_exit_properties P data room_objs rooms
      in exit_candidates room_objs (word_hints U P data exit_props)
           (get_object_properties P data room_num) room_num (set_iter exit_props))"

subsection \<open>A small story image\<close>

text \<open>
  Three rooms under the container 27. The kitchen (142) has property 15 with the byte
  143 and property 14 with the byte 144; the cellar (143) and the attic (144) have no
  property. The dictionary at address 20 has one entry of length 7, the word
  \<^verbatim>\<open>down\<close>, whose extra bytes are 15, 14 and 0.
\<close>

definition kitchen_data :: "byte list" where
  "kitchen_data =
     [0, 15, 143, 14, 144, 0, 0, 0, 0, 0, 0, 0, 0, 0, 0, 0, 0, 0, 0, 0,
      0, 7, 0, 1, 0, 0, 0, 0, 15, 14, 0]"

definition kitchen_parser :: zparser where
  "kitchen_parser =
     \<lparr>version = 3, dictionary = 20,
      get_object = (\<lambda>n. if n = 142 then Inr (Some \<lparr>parent = 27, properties = 0\<rparr>)
                        else if n = 143 \<or> n = 144 then Inr (Some \<lparr>parent = 27, properties = 5\<rparr>)
                        else Inr None),
      get_object_name = (\<lambda>n. if n = 142 then Inr ''Kitchen''
                             else if n = 143 then Inr ''Cellar''
                             else if n = 144 then Inr ''Attic''
                             else Inr []),
      get_dictionary_words = Inr [''down'']\<rparr>"

definition kitchen_rooms :: rooms where
  "kitchen_rooms =
     [(142, \<lparr>r_obj_num = 142, r_name = ''Kitchen'', r_exits = [], r_objects = []\<rparr>),
      (143, \<lparr>r_obj_num = 143, r_name = ''Cellar'', r_exits = [], r_objects = []\<rparr>),
      (144, \<lparr>r_obj_num = 144, r_name = ''Attic'', r_exits = [], r_objects = []\<rparr>)]"

text \<open>The string tables on ASCII, and an iteration order of small sets of numbers.\<close>

definition ascii :: pystr where
  "ascii =
     \<lparr>isprintable = (\<lambda>c. 32 \<le> (of_char c :: nat) \<and> (of_char c :: nat) < 127),
      isalnum = (\<lambda>c. c \<in> set ''0123456789abcdefghijklmnopqrstuvwxyzABCDEFGHIJKLMNOPQRSTUVWXYZ''),
      isspace = (\<lambda>c. (of_char c :: nat) = 32 \<or> (9 \<le> (of_char c :: nat) \<and> (of_char c :: nat) \<le> 13)),
      lower = map (\<lambda>c. if 65 \<le> (of_char c :: nat) \<and> (of_char c :: nat) \<le> 90
                         then char_of ((of_char c :: nat) + 32) else c)\<rparr>"

definition ascending :: "nat set \<Rightarrow> nat list" where
  "ascending S = filter (\<lambda>p. p \<in> S) [0..<32]"

text \<open>The kitchen's parser with every name garbled: two letters and three control characters.\<close>

definition garbled_parser :: zparser where
  "garbled_parser =
     kitchen_parser\<lparr>get_object_name := \<lambda>n. Inr (''ab'' @ [CHR 0x01, CHR 0x02, CHR 0x03])\<rparr>"

text \<open>
  A version 5 story with 300 objects on the kitchen's image, none with any property.
  The objects sit under object 1 and are named, except for two under object 27: the
  vault (300), and object 200 whose name is three blanks.
\<close>

definition vault_parser :: zparser where
  "vault_parser =
     \<lparr>version = 5, dictionary = 20,
      get_object = (\<lambda>n. if 1 \<le> n \<and> n \<le> 300
                        then Inr (Some \<lparr>parent = (if n = 300 \<or> n = 200 then 27 else 1),
                                        properties = 5\<rparr>)
                        else Inr None),
      get_object_name = (\<lambda>n. if n = 300 then Inr ''Vault''
                             else if n = 200 then Inr ''   ''
                             else if 1 \<le> n \<and> n \<le> 300 then Inr ''Thing''
                             else Inr []),
      get_dictionary_words = Inr [''down'']\<rparr>"

text \<open>
  A version 5 story with 300 objects on the kitchen's image, all under object 1 and
  without property: decoding object 143 raises, the name of object 145 is three blanks,
  the other objects are named.
\<close>

definition relay_parser :: zparser where
  "relay_parser =
     \<lparr>version = 5, dictionary = 20,
      get_object = (\<lambda>n. if n = 143 then Inl IndexError
                        else if 1 \<le> n \<and> n \<le> 300
                        then Inr (Some \<lparr>parent = 1, properties = 5\<rparr>)
                        else Inr None),
      get_object_name = (\<lambda>n. if n = 145 then Inr ''   ''
                             else if 1 \<le> n \<and> n \<le> 300 then Inr ''Thing''
                             else Inr []),
      get_dictionary_words = Inr [''down'']\<rparr>"

text \<open>
  The kitchen's image read by a parser whose rooms are scattered: only the kitchen (142)
  is under the container 27, the cellar (143) and the attic (145) are elsewhere, and
  object 144 is undecodable.
\<close>

definition scattered_parser :: zparser where
  "scattered_parser =
     \<lparr>version = 3, dictionary = 20,
      get_object = (\<lambda>n. if n = 142 then Inr (Some \<lparr>parent = 27, properties = 0\<rparr>)
                        else if n = 143 \<or> n = 145 then Inr (Some \<lparr>parent = 5, properties = 5\<rparr>)
                        else Inr None),
      get_object_name = (\<lambda>n. if n = 142 then Inr ''Kitchen''
                             else if n = 143 then Inr ''Cellar''
                             else if n = 145 then Inr ''Attic''
                             else Inr []),
      get_dictionary_words = Inr [''down'']\<rparr>"





section \<open>Properties\<close>

subsection \<open>The small story image, evaluated\<close>

lemma kitchen_props_142:
  "get_object_properties kitchen_parser kitchen_data 142 = [(15, [143]), (14, [144])]"
  by (simp add: get_object_properties_def kitchen_parser_def kitchen_data_def
      props_loop.simps slice_def Let_def)

lemma kitchen_props_143:
  "get_object_properties kitchen_parser kitchen_data 143 = []"
  by (simp add: get_object_properties_def kitchen_parser_def kitchen_data_def
      props_loop.simps slice_def Let_def)

lemma kitchen_props_144:
  "get_object_properties kitchen_parser kitchen_data 144 = []"
  by (simp add: get_object_properties_def kitchen_parser_def kitchen_data_def
      props_loop.simps slice_def Let_def)

lemma kitchen_exit_props:
  "find_exit_properties kitchen_parser kitchen_data (fst ` set kitchen_rooms) kitchen_rooms
     = {14, 15}"
  by (simp add: find_exit_properties_def kitchen_rooms_def
      kitchen_props_142 kitchen_props_143 kitchen_props_144)

lemma kitchen_header: "dict_header kitchen_parser kitchen_data = Inr (7, 1, 24)"
  by (simp add: dict_header_def read_data_def kitchen_parser_def kitchen_data_def Let_def)

lemma kitchen_extra: "entry_extra kitchen_data 24 7 0 = [15, 14, 0]"
  by (simp add: entry_extra_def kitchen_data_def slice_def Let_def)

lemma kitchen_down: "lower ascii (strip ascii ''down'') = ''down''"
  by (simp add: ascii_def strip_def)

lemma kitchen_words: "get_dictionary_words kitchen_parser = Inr [''down'']"
  by (simp add: kitchen_parser_def)

lemma kitchen_word_mapping:
  "get_property_to_word_mapping ascii kitchen_parser kitchen_data
     = Inr [(15, ''down''), (14, ''down'')]"
  by (simp add: get_property_to_word_mapping_def kitchen_header kitchen_extra kitchen_down
      kitchen_words Let_def)

lemma kitchen_order: "ascending {14, 15} = [14, 15]"
  by (simp add: ascending_def upt_rec)

lemma kitchen_extract:
  "extract_exits ascii kitchen_parser kitchen_data ascending kitchen_rooms =
     Inr (1, [(142, \<lparr>r_obj_num = 142, r_name = ''Kitchen'', r_exits = [(''down'', 144)],
                     r_objects = []\<rparr>),
              (143, \<lparr>r_obj_num = 143, r_name = ''Cellar'', r_exits = [], r_objects = []\<rparr>),
              (144, \<lparr>r_obj_num = 144, r_name = ''Attic'', r_exits = [], r_objects = []\<rparr>)])"
  unfolding extract_exits_def kitchen_exit_props kitchen_word_mapping Let_def
  by (simp add: kitchen_order kitchen_rooms_def kitchen_props_142 kitchen_props_143
      kitchen_props_144 extract_room_refs_from_property_def exit_word_def)

lemma kitchen_candidates:
  "room_candidates ascii kitchen_parser kitchen_data ascending kitchen_rooms 142
     = [(''down'', 144), (''down'', 143)]"
  unfolding room_candidates_def kitchen_exit_props Let_def word_hints_def kitchen_word_mapping
  by (simp add: kitchen_order kitchen_props_142 exit_candidates_def kitchen_rooms_def
      extract_room_refs_from_property_def exit_word_def)

subsection \<open>Extraction of room references\<close>

lemma remdups_drop_seen:
  "b \<in> set ys \<Longrightarrow> remdups (xs @ b # ys) = remdups (xs @ ys)"
  by (induction xs) auto

lemma first_occurrences_seen:
  "b \<in> set xs \<Longrightarrow> first_occurrences (xs @ b # ys) = first_occurrences (xs @ ys)"
  by (simp add: first_occurrences_def remdups_drop_seen)

lemma first_occurrences_distinct_id:
  "distinct xs \<Longrightarrow> first_occurrences xs = xs"
  by (simp add: first_occurrences_def distinct_remdups_id)

lemma distinct_first_occurrences: "distinct (first_occurrences xs)"
  by (simp add: first_occurrences_def)

lemma set_first_occurrences: "set (first_occurrences xs) = set xs"
  by (simp add: first_occurrences_def)

lemma refs_loop_first_occurrences:
  "distinct refs \<Longrightarrow>
   fst (refs_loop room_objs room_num prop_data (refs, set refs)) =
     first_occurrences (refs @ filter (\<lambda>b. b \<in> room_objs \<and> b \<noteq> room_num) prop_data)"
proof (induction prop_data arbitrary: refs)
  case Nil
  then show ?case by (simp add: first_occurrences_distinct_id)
next
  case (Cons b rest)
  show ?case
  proof (cases "b \<in> room_objs \<and> b \<noteq> room_num")
    case False
    then show ?thesis using Cons by auto
  next
    case isref: True
    show ?thesis
    proof (cases "b \<in> set refs")
      case True
      then show ?thesis using isref Cons by (simp add: first_occurrences_seen)
    next
      case False
      then have "distinct (refs @ [b])" using Cons.prems by simp
      from Cons.IH [OF this] isref False show ?thesis by simp
    qed
  qed
qed

lemma extract_room_refs_eq:
  "extract_room_refs_from_property room_objs prop_data room_num =
     first_occurrences (filter (\<lambda>b. b \<in> room_objs \<and> b \<noteq> room_num) prop_data)"
proof (cases "length prop_data = 1")
  case True
  then obtain b where "prop_data = [b]"
    by (cases prop_data) auto
  then show ?thesis
    by (simp add: extract_room_refs_from_property_def first_occurrences_def)
next
  case False
  then show ?thesis
    using refs_loop_first_occurrences [of "[]" room_objs room_num prop_data]
    by (simp add: extract_room_refs_from_property_def)
qed

text \<open>
  Claim C2. Every destination extracted from a property value is a byte of that value
  that is a classified room (a member of \<open>room_objs\<close>) other than the source room; a
  byte equal to the room's own identifier, or one that is no room, is never a
  destination. The bytes are scanned left to right and a destination is kept at its
  first occurrence only: the result is the list of first occurrences of the qualifying
  bytes, without duplicates.
\<close>

theorem extract_room_refs_sound:
  "extract_room_refs_from_property room_objs prop_data room_num =
     first_occurrences (filter (\<lambda>b. b \<in> room_objs \<and> b \<noteq> room_num) prop_data)
   \<and> distinct (extract_room_refs_from_property room_objs prop_data room_num)
   \<and> set (extract_room_refs_from_property room_objs prop_data room_num)
       = {b \<in> set prop_data. b \<in> room_objs \<and> b \<noteq> room_num}
   \<and> room_num \<notin> set (extract_room_refs_from_property room_objs prop_data room_num)
   \<and> set (extract_room_refs_from_property room_objs prop_data room_num) \<subseteq> room_objs"
  by (auto simp: extract_room_refs_eq distinct_first_occurrences set_first_occurrences)

subsection \<open>Discovery of exit properties\<close>

lemma distinct_props_loop:
  "distinct (map fst props) \<Longrightarrow> distinct (map fst (props_loop data prop_addr props))"
proof (induction data prop_addr props rule: props_loop.induct)
  case (1 data prop_addr props)
  show ?case
  proof (cases "prop_addr + 10 < length data \<and> unat (data ! prop_addr) \<noteq> 0")
    case True
    then show ?thesis
      using "1.IH" [OF _ refl _ refl refl refl] "1.prems"
      by (subst props_loop.simps) (simp add: Let_def distinct_update)
  next
    case False
    then show ?thesis
      using "1.prems" by (subst props_loop.simps) (auto simp: Let_def)
  qed
qed

lemma distinct_get_object_properties:
  "distinct (map fst (get_object_properties P data n))"
  by (auto simp: get_object_properties_def Let_def distinct_props_loop
      split: sum.splits option.splits)

lemma points_to_room_iff:
  "points_to_room room_objs room_num prop_data \<longleftrightarrow>
     (\<exists>b \<in> set prop_data. b \<in> room_objs \<and> b \<noteq> room_num)"
  by (induction prop_data) auto

lemma scan_props_eq:
  "scan_props room_objs room_num props exit_props =
     exit_props \<union> {p. 13 \<le> p \<and> (\<exists>d. (p, d) \<in> set props \<and>
        (\<exists>b \<in> set d. b \<in> room_objs \<and> b \<noteq> room_num))}"
proof (induction props arbitrary: exit_props)
  case Nil
  then show ?case by simp
next
  case (Cons pd props)
  obtain p d where pd: "pd = (p, d)" by (cases pd)
  show ?case
    unfolding pd by (simp add: Cons.IH points_to_room_iff) fastforce
qed

lemma find_exit_loop_eq:
  "find_exit_loop P data room_objs rs exit_props =
     exit_props \<union> {p. 13 \<le> p \<and> (\<exists>r \<in> set rs. \<exists>d.
        (p, d) \<in> set (get_object_properties P data r) \<and>
        (\<exists>b \<in> set d. b \<in> room_objs \<and> b \<noteq> r))}"
proof (induction rs arbitrary: exit_props)
  case Nil
  then show ?case by simp
next
  case (Cons r rs)
  show ?case
    by (simp add: Cons.IH scan_props_eq) blast
qed

lemma find_exit_properties_eq:
  "find_exit_properties P data room_objs rooms =
     {p. 13 \<le> p \<and> (\<exists>r \<in> fst ` set rooms. \<exists>d.
        map_of (get_object_properties P data r) p = Some d \<and>
        (\<exists>b \<in> set d. b \<in> room_objs \<and> b \<noteq> r))}"
  by (simp add: find_exit_properties_def find_exit_loop_eq
      map_of_eq_Some_iff [OF distinct_get_object_properties])

text \<open>
  Claim C1. With \<open>room_objs\<close> the identifiers of the given rooms (what
  \<^verbatim>\<open>extract_exits\<close> stores before it calls the discovery), the discovered set is exactly
  the set of property numbers \<open>p \<ge> 13\<close> for which some room \<open>r\<close> of the room set has
  \<open>p\<close> in its decoded property table with a value one byte of which is the identifier
  of a room of the set other than \<open>r\<close>. No number below 13 is ever in the set.
\<close>

theorem find_exit_properties_exact:
  "find_exit_properties P data (fst ` set rooms) rooms =
     {p. 13 \<le> p \<and> (\<exists>r \<in> fst ` set rooms. \<exists>d.
        map_of (get_object_properties P data r) p = Some d \<and>
        (\<exists>b \<in> set d. b \<in> fst ` set rooms \<and> b \<noteq> r))}
   \<and> (\<forall>p \<in> find_exit_properties P data room_objs rooms. 13 \<le> p)"
  by (simp add: find_exit_properties_eq)

theorem find_exit_properties_exact_witness:
  "14 \<in> find_exit_properties kitchen_parser kitchen_data (fst ` set kitchen_rooms) kitchen_rooms
   \<and> (13 :: nat) \<le> 14"
proof -
  have "14 \<in> find_exit_properties kitchen_parser kitchen_data (fst ` set kitchen_rooms)
      kitchen_rooms"
    by (simp add: kitchen_exit_props)
  then show ?thesis
    using find_exit_properties_exact [of kitchen_parser kitchen_data kitchen_rooms
        "fst ` set kitchen_rooms"]
    by blast
qed

subsection \<open>The dictionary's word hints\<close>



















subsection \<open>Extraction of exits\<close>

lemma update_absent:
  "map_of ex k = None \<Longrightarrow> AList.update k v ex = ex @ [(k, v)]"
  by (induction ex) auto

lemma dest_loop_taken:
  "map_of ex (exit_word ptw p) \<noteq> None \<Longrightarrow> dest_loop ptw p ds (ex, t) = (ex, t)"
  by (induction ds) (auto simp: Let_def)

lemma dest_loop_eq:
  "dest_loop ptw p ds (ex, t) =
     (case ds of
        [] \<Rightarrow> (ex, t)
      | d # _ \<Rightarrow> (write_first ex (exit_word ptw p, d),
                  t + (length (write_first ex (exit_word ptw p, d)) - length ex)))"
  by (cases ds) (auto simp: Let_def write_first_def update_absent dest_loop_taken)

lemma length_foldl_write_first:
  "length ex \<le> length (foldl write_first ex cs)"
proof (induction cs arbitrary: ex)
  case Nil
  then show ?case by simp
next
  case (Cons c cs)
  have "length ex \<le> length (write_first ex c)"
    by (simp add: write_first_def)
  also have "\<dots> \<le> length (foldl write_first (write_first ex c) cs)"
    by (rule Cons.IH)
  finally show ?case by simp
qed

lemma exit_candidates_Nil [simp]:
  "exit_candidates ro ptw props rn [] = []"
  by (simp add: exit_candidates_def)

lemma exit_candidates_Cons:
  "exit_candidates ro ptw props rn (p # ps) =
     (case map_of props p of
        None \<Rightarrow> exit_candidates ro ptw props rn ps
      | Some d \<Rightarrow>
          (case extract_room_refs_from_property ro d rn of
             [] \<Rightarrow> exit_candidates ro ptw props rn ps
           | dest # _ \<Rightarrow> (exit_word ptw p, dest) # exit_candidates ro ptw props rn ps))"
  by (simp add: exit_candidates_def split: option.splits list.splits)

lemma exit_props_loop_eq:
  "exit_props_loop ro ptw props rn ps (ex, t) =
     (foldl write_first ex (exit_candidates ro ptw props rn ps),
      t + (length (foldl write_first ex (exit_candidates ro ptw props rn ps)) - length ex))"
proof (induction ps arbitrary: ex t)
  case Nil
  then show ?case by simp
next
  case (Cons p ps)
  show ?case
  proof (cases "map_of props p")
    case None
    then show ?thesis by (simp add: Cons.IH exit_candidates_Cons)
  next
    case (Some d)
    show ?thesis
    proof (cases "extract_room_refs_from_property ro d rn")
      case Nil
      then show ?thesis using Some by (simp add: Cons.IH exit_candidates_Cons dest_loop_eq)
    next
      case (Cons dest rest)
      let ?c = "(exit_word ptw p, dest)"
      have a: "length ex \<le> length (write_first ex ?c)"
        by (simp add: write_first_def)
      have b: "length (write_first ex ?c)
          \<le> length (foldl write_first (write_first ex ?c) (exit_candidates ro ptw props rn ps))"
        by (rule length_foldl_write_first)
      show ?thesis
        using Some Cons a b
        by (simp add: Cons.IH exit_candidates_Cons dest_loop_eq)
    qed
  qed
qed

lemma rooms_loop_eq:
  "rooms_loop P data ro ptw ps rooms t =
     (map (\<lambda>(k, r). (k, r\<lparr>r_exits := foldl write_first (r_exits r)
              (exit_candidates ro ptw (get_object_properties P data k) k ps)\<rparr>)) rooms,
      t + sum_list (map (\<lambda>(k, r). length (foldl write_first (r_exits r)
              (exit_candidates ro ptw (get_object_properties P data k) k ps)) - length (r_exits r)) rooms))"
proof (induction rooms arbitrary: t)
  case Nil
  then show ?case by simp
next
  case (Cons kr rooms)
  obtain k r where kr: "kr = (k, r)" by (cases kr)
  show ?case
    unfolding kr by (simp add: Cons.IH exit_props_loop_eq Let_def)
qed

lemma foldl_write_first_append:
  "\<exists>added. foldl write_first ex cs = ex @ added \<and> subseq added cs"
proof (induction cs arbitrary: ex)
  case Nil
  then show ?case by simp
next
  case (Cons c cs)
  show ?case
  proof (cases "map_of ex (fst c) = None")
    case True
    from Cons.IH [of "ex @ [c]"] obtain added
      where "foldl write_first (ex @ [c]) cs = (ex @ [c]) @ added" and "subseq added cs"
      by blast
    then have "foldl write_first ex (c # cs) = ex @ (c # added) \<and> subseq (c # added) (c # cs)"
      using True by (simp add: write_first_def)
    then show ?thesis by blast
  next
    case False
    from Cons.IH [of ex] obtain added
      where "foldl write_first ex cs = ex @ added" and "subseq added cs"
      by blast
    moreover have "write_first ex c = ex"
      using False by (simp only: write_first_def if_False)
    ultimately have "foldl write_first ex (c # cs) = ex @ added \<and> subseq added (c # cs)"
      by (auto intro: list_emb.intros)
    then show ?thesis by blast
  qed
qed

lemma map_of_foldl_write_first:
  "map_of (foldl write_first ex cs) = map_of (ex @ cs)"
proof (induction cs arbitrary: ex)
  case Nil
  then show ?case by simp
next
  case (Cons c cs)
  show ?case
  proof (cases "map_of ex (fst c) = None")
    case True
    then show ?thesis using Cons.IH [of "ex @ [c]"] by (simp add: write_first_def)
  next
    case False
    have "map_of (ex @ c # cs) x = map_of (ex @ cs) x" for x
      using False by (cases c) (auto simp: map_add_def split: option.splits)
    then have "map_of (ex @ c # cs) = map_of (ex @ cs)" by blast
    moreover have "write_first ex c = ex"
      using False by (simp only: write_first_def if_False)
    ultimately show ?thesis using Cons.IH [of ex] by simp
  qed
qed

lemma distinct_foldl_write_first:
  "distinct (map fst ex) \<Longrightarrow> distinct (map fst (foldl write_first ex cs))"
proof (induction cs arbitrary: ex)
  case Nil
  then show ?case by simp
next
  case (Cons c cs)
  have "distinct (map fst (write_first ex c))"
    using Cons.prems by (auto simp: write_first_def map_of_eq_None_iff)
  then show ?case using Cons.IH by simp
qed

lemma length_exit_candidates:
  "length (exit_candidates ro ptw props rn ps) \<le> length ps"
  by (induction ps) (auto simp: exit_candidates_Cons split: option.splits list.splits)

lemma adds_exist:
  assumes "\<And>k r. \<exists>a. F k r = r_exits r @ a"
  shows "\<exists>adds. length adds = length rooms
      \<and> map (\<lambda>(k, r). (k, r\<lparr>r_exits := F k r\<rparr>)) rooms
          = map (\<lambda>((k, r), a). (k, r\<lparr>r_exits := r_exits r @ a\<rparr>)) (zip rooms adds)
      \<and> sum_list (map (\<lambda>(k, r). length (F k r) - length (r_exits r)) rooms)
          = sum_list (map length adds)"
proof (induction rooms)
  case Nil
  then show ?case by simp
next
  case (Cons kr rooms)
  obtain k r where kr: "kr = (k, r)" by (cases kr)
  from assms obtain a where a: "F k r = r_exits r @ a" by blast
  from Cons.IH obtain adds where adds: "length adds = length rooms"
    "map (\<lambda>(k, r). (k, r\<lparr>r_exits := F k r\<rparr>)) rooms
       = map (\<lambda>((k, r), a). (k, r\<lparr>r_exits := r_exits r @ a\<rparr>)) (zip rooms adds)"
    "sum_list (map (\<lambda>(k, r). length (F k r) - length (r_exits r)) rooms)
       = sum_list (map length adds)"
    by blast
  have "length (a # adds) = length (kr # rooms)
      \<and> map (\<lambda>(k, r). (k, r\<lparr>r_exits := F k r\<rparr>)) (kr # rooms)
          = map (\<lambda>((k, r), a). (k, r\<lparr>r_exits := r_exits r @ a\<rparr>)) (zip (kr # rooms) (a # adds))
      \<and> sum_list (map (\<lambda>(k, r). length (F k r) - length (r_exits r)) (kr # rooms))
          = sum_list (map length (a # adds))"
    using adds a by (simp add: kr)
  then show ?case by blast
qed

lemma extract_exits_early:
  "rooms = [] \<or> find_exit_properties P data (fst ` set rooms) rooms = {} \<Longrightarrow>
   extract_exits U P data set_iter rooms = Inr (0, rooms)"
  by (auto simp: extract_exits_def Let_def)

lemma extract_exits_main:
  "rooms \<noteq> [] \<Longrightarrow> find_exit_properties P data (fst ` set rooms) rooms \<noteq> {} \<Longrightarrow>
   extract_exits U P data set_iter rooms =
     (case get_property_to_word_mapping U P data of
        Inl e \<Rightarrow> Inl e
      | Inr m \<Rightarrow>
          (let exit_props = find_exit_properties P data (fst ` set rooms) rooms;
               res = rooms_loop P data (fst ` set rooms)
                       (filter (\<lambda>(p, w). p \<in> exit_props) m) (set_iter exit_props) rooms 0
           in Inr (snd res, fst res)))"
  by (simp add: extract_exits_def Let_def split: sum.splits prod.splits)

lemma identity_update_rooms:
  "map (\<lambda>(k, r). (k, r\<lparr>r_exits := r_exits r\<rparr>)) (rooms :: rooms) = rooms"
  by (induction rooms) auto

lemma extract_exits_rooms:
  assumes res: "extract_exits U P data set_iter rooms = Inr (n, rooms')"
    and iter: "set (set_iter (find_exit_properties P data (fst ` set rooms) rooms))
                = find_exit_properties P data (fst ` set rooms) rooms"
  shows "rooms' = map (\<lambda>(k, r). (k, r\<lparr>r_exits := foldl write_first (r_exits r)
            (room_candidates U P data set_iter rooms k)\<rparr>)) rooms"
proof (cases "rooms = [] \<or> find_exit_properties P data (fst ` set rooms) rooms = {}")
  case True
  then have "rooms' = rooms"
    using res extract_exits_early [OF True, of U set_iter] by simp
  moreover have "room_candidates U P data set_iter rooms k = []" if "rooms \<noteq> []" for k
    using True that iter by (simp add: room_candidates_def Let_def)
  ultimately show ?thesis
    by (cases "rooms = []") (simp_all add: identity_update_rooms)
next
  case False
  then obtain m where m: "get_property_to_word_mapping U P data = Inr m"
    using res by (cases "get_property_to_word_mapping U P data") (simp_all add: extract_exits_main)
  show ?thesis
    using res False m
    by (simp add: extract_exits_main Let_def rooms_loop_eq room_candidates_def word_hints_def)
qed

lemma extract_exits_counts:
  assumes res: "extract_exits U P data set_iter rooms = Inr (n, rooms')"
  shows "\<exists>F. (\<forall>k r. \<exists>a. F k r = r_exits r @ a)
     \<and> rooms' = map (\<lambda>(k, r). (k, r\<lparr>r_exits := F k r\<rparr>)) rooms
     \<and> n = sum_list (map (\<lambda>(k, r). length (F k r) - length (r_exits r)) rooms)"
proof (cases "rooms = [] \<or> find_exit_properties P data (fst ` set rooms) rooms = {}")
  case True
  then have "rooms' = rooms" "n = 0"
    using res extract_exits_early [OF True, of U set_iter] by simp_all
  then show ?thesis
    by (intro exI [of _ "\<lambda>k r. r_exits r"]) (simp add: identity_update_rooms)
next
  case False
  then obtain m where m: "get_property_to_word_mapping U P data = Inr m"
    using res by (cases "get_property_to_word_mapping U P data") (simp_all add: extract_exits_main)
  define E where "E = find_exit_properties P data (fst ` set rooms) rooms"
  define F where "F = (\<lambda>k (r :: room). foldl write_first (r_exits r)
      (exit_candidates (fst ` set rooms) (filter (\<lambda>(p, w). p \<in> E) m)
         (get_object_properties P data k) k (set_iter E)))"
  have "\<forall>k r. \<exists>a. F k r = r_exits r @ a"
    unfolding F_def using foldl_write_first_append by blast
  moreover have "rooms' = map (\<lambda>(k, r). (k, r\<lparr>r_exits := F k r\<rparr>)) rooms
     \<and> n = sum_list (map (\<lambda>(k, r). length (F k r) - length (r_exits r)) rooms)"
    using res False m
    by (simp add: extract_exits_main Let_def rooms_loop_eq F_def E_def)
  ultimately show ?thesis by blast
qed

text \<open>
  Claim C8. The count \<^verbatim>\<open>extract_exits\<close> returns is the number of pairs it added: each
  room of the result is the room given with a list of new pairs appended to its exit
  mapping, every other field and the identifiers unchanged, and the count is the sum of
  the lengths of these lists. With an empty room set, or when no exit property is
  discovered, the count is zero and the rooms are returned as they were. The call
  returns whenever the decoding of the dictionary does not raise.
\<close>

theorem extract_exits_count:
  "(rooms = [] \<or> find_exit_properties P data (fst ` set rooms) rooms = {}
      \<longrightarrow> extract_exits U P data set_iter rooms = Inr (0, rooms))
   \<and> (extract_exits U P data set_iter rooms = Inr (n, rooms') \<longrightarrow>
        (\<exists>adds. length adds = length rooms
           \<and> rooms' = map (\<lambda>((k, r), a). (k, r\<lparr>r_exits := r_exits r @ a\<rparr>)) (zip rooms adds)
           \<and> n = sum_list (map length adds)))
   \<and> ((\<exists>m. get_property_to_word_mapping U P data = Inr m) \<longrightarrow>
        (\<exists>n rooms'. extract_exits U P data set_iter rooms = Inr (n, rooms')))"
proof (intro conjI impI)
  assume "rooms = [] \<or> find_exit_properties P data (fst ` set rooms) rooms = {}"
  then show "extract_exits U P data set_iter rooms = Inr (0, rooms)"
    by (rule extract_exits_early)
next
  assume "extract_exits U P data set_iter rooms = Inr (n, rooms')"
  from extract_exits_counts [OF this] obtain F where F: "\<And>k r. \<exists>a. F k r = r_exits r @ a"
    and r: "rooms' = map (\<lambda>(k, r). (k, r\<lparr>r_exits := F k r\<rparr>)) rooms"
    and n: "n = sum_list (map (\<lambda>(k, r). length (F k r) - length (r_exits r)) rooms)"
    by blast
  from adds_exist [of F rooms, OF F] r n
  show "\<exists>adds. length adds = length rooms
           \<and> rooms' = map (\<lambda>((k, r), a). (k, r\<lparr>r_exits := r_exits r @ a\<rparr>)) (zip rooms adds)
           \<and> n = sum_list (map length adds)"
    by auto
next
  assume "\<exists>m. get_property_to_word_mapping U P data = Inr m"
  then obtain m where m: "get_property_to_word_mapping U P data = Inr m" by blast
  show "\<exists>n rooms'. extract_exits U P data set_iter rooms = Inr (n, rooms')"
  proof (cases "rooms = [] \<or> find_exit_properties P data (fst ` set rooms) rooms = {}")
    case True
    then show ?thesis using extract_exits_early [OF True] by blast
  next
    case False
    then show ?thesis using m by (simp add: extract_exits_main Let_def)
  qed
qed

theorem extract_exits_count_witness:
  "(\<exists>n rooms'. extract_exits ascii kitchen_parser kitchen_data ascending kitchen_rooms
       = Inr (n, rooms')
     \<and> n = 1
     \<and> (\<exists>adds. length adds = length kitchen_rooms
           \<and> rooms' = map (\<lambda>((k, r), a). (k, r\<lparr>r_exits := r_exits r @ a\<rparr>))
                         (zip kitchen_rooms adds)
           \<and> n = sum_list (map length adds)))
   \<and> extract_exits ascii kitchen_parser kitchen_data ascending [] = Inr (0, [])"
  using extract_exits_count [of kitchen_rooms kitchen_parser kitchen_data ascii ascending 1]
    extract_exits_count [of "[]" kitchen_parser kitchen_data ascii ascending]
    kitchen_extract
  by simp

text \<open>
  Claim C3. After \<^verbatim>\<open>extract_exits\<close>, for every room: its exit mapping is the one it
  had followed by new pairs; the new pairs are candidates of the room, taken in the
  order of iteration over the exit properties, at most one for each exit property; looking
  a label up in the result gives what the first pair with that label gives, among the
  old pairs followed by all candidates, so a later pair with a label already written is
  dropped; and a mapping with one destination for each label keeps that shape.
\<close>

theorem first_label_wins:
  assumes "extract_exits U P data set_iter rooms = Inr (n, rooms')"
    and "set (set_iter (find_exit_properties P data (fst ` set rooms) rooms))
          = find_exit_properties P data (fst ` set rooms) rooms"
    and "i < length rooms"
  shows "length rooms' = length rooms \<and> fst (rooms' ! i) = fst (rooms ! i)
    \<and> map_of (r_exits (snd (rooms' ! i)))
        = map_of (r_exits (snd (rooms ! i))
                   @ room_candidates U P data set_iter rooms (fst (rooms ! i)))
    \<and> (\<exists>added. r_exits (snd (rooms' ! i)) = r_exits (snd (rooms ! i)) @ added
          \<and> subseq added (room_candidates U P data set_iter rooms (fst (rooms ! i)))
          \<and> length added
              \<le> length (set_iter (find_exit_properties P data (fst ` set rooms) rooms)))
    \<and> (distinct (map fst (r_exits (snd (rooms ! i))))
          \<longrightarrow> distinct (map fst (r_exits (snd (rooms' ! i)))))"
proof -
  obtain k r where kr: "rooms ! i = (k, r)" by (cases "rooms ! i")
  let ?cands = "room_candidates U P data set_iter rooms k"
  have r': "rooms' ! i = (k, r\<lparr>r_exits := foldl write_first (r_exits r) ?cands\<rparr>)"
    and len: "length rooms' = length rooms"
    using extract_exits_rooms [OF assms(1,2)] assms(3) kr by simp_all
  obtain added where added: "foldl write_first (r_exits r) ?cands = r_exits r @ added"
    "subseq added ?cands"
    using foldl_write_first_append by blast
  have "length added \<le> length ?cands"
    using added(2) by (rule list_emb_length)
  also have "\<dots> \<le> length (set_iter (find_exit_properties P data (fst ` set rooms) rooms))"
    by (simp add: room_candidates_def Let_def length_exit_candidates)
  finally have bound: "length added
      \<le> length (set_iter (find_exit_properties P data (fst ` set rooms) rooms))" .
  have m: "map_of (r_exits (snd (rooms' ! i)))
      = map_of (r_exits (snd (rooms ! i)) @ ?cands)"
    by (simp add: kr r' map_of_foldl_write_first del: map_of_append)
  have d: "distinct (map fst (r_exits (snd (rooms ! i))))
      \<longrightarrow> distinct (map fst (r_exits (snd (rooms' ! i))))"
    by (simp add: kr r' distinct_foldl_write_first del: map_append)
  have a: "\<exists>added. r_exits (snd (rooms' ! i)) = r_exits (snd (rooms ! i)) @ added
          \<and> subseq added ?cands
          \<and> length added
              \<le> length (set_iter (find_exit_properties P data (fst ` set rooms) rooms))"
    using added bound by (simp add: kr r')
  show ?thesis
    using m d a len by (simp only: kr r' fst_conv)
qed

theorem first_label_wins_witness:
  "(\<exists>n rooms'. extract_exits ascii kitchen_parser kitchen_data ascending kitchen_rooms
       = Inr (n, rooms')
     \<and> map_of (r_exits (snd (rooms' ! 0))) ''down'' = Some 144
     \<and> room_candidates ascii kitchen_parser kitchen_data ascending kitchen_rooms 142
         = [(''down'', 144), (''down'', 143)]
     \<and> distinct (map fst (r_exits (snd (rooms' ! 0)))))"
proof -
  have i: "0 < length kitchen_rooms" by (simp add: kitchen_rooms_def)
  have it: "set (ascending (find_exit_properties kitchen_parser kitchen_data
        (fst ` set kitchen_rooms) kitchen_rooms))
      = find_exit_properties kitchen_parser kitchen_data (fst ` set kitchen_rooms) kitchen_rooms"
    by (simp add: kitchen_exit_props kitchen_order)
  have k: "fst (kitchen_rooms ! 0) = 142" "r_exits (snd (kitchen_rooms ! 0)) = []"
    by (simp_all add: kitchen_rooms_def)
  from first_label_wins [OF kitchen_extract it i]
  show ?thesis
    using kitchen_extract by (simp add: k kitchen_candidates)
qed

subsection \<open>Reads stay inside the image\<close>

lemma size_field_bound: "drop_bit 5 (unat (b :: byte)) < 8"
proof -
  have "unat b < 2 ^ 8"
    using unsigned_less [of b, where 'a = nat] by simp
  then show ?thesis
    by (simp add: drop_bit_eq_div)
qed

lemma props_loop_traced_fst:
  "fst (props_loop_traced data prop_addr (props, reads)) = props_loop data prop_addr props"
proof (induction data prop_addr props arbitrary: reads rule: props_loop.induct)
  case (1 data prop_addr props)
  show ?case
  proof (cases "prop_addr + 10 < length data \<and> unat (data ! prop_addr) \<noteq> 0")
    case True
    then show ?thesis
      using "1.IH" [OF _ refl _ refl refl refl]
      by (subst props_loop_traced.simps, subst props_loop.simps) (simp add: Let_def)
  next
    case False
    then show ?thesis
      by (subst props_loop_traced.simps, subst props_loop.simps) (auto simp: Let_def)
  qed
qed

lemma props_loop_traced_reads:
  "\<forall>a \<in> set reads. a < length data \<Longrightarrow>
   \<forall>a \<in> set (snd (props_loop_traced data prop_addr (props, reads))). a < length data"
proof (induction data prop_addr props arbitrary: reads rule: props_loop.induct)
  case (1 data prop_addr props)
  show ?case
  proof (cases "prop_addr + 10 < length data")
    case False
    then show ?thesis
      using "1.prems" by (subst props_loop_traced.simps) simp
  next
    case inside: True
    show ?thesis
    proof (cases "unat (data ! prop_addr) = 0")
      case True
      then show ?thesis
        using "1.prems" inside by (subst props_loop_traced.simps) (simp add: Let_def)
    next
      case False
      let ?size = "drop_bit 5 (unat (data ! prop_addr)) + 1"
      let ?reads = "(reads @ [prop_addr]) @ [prop_addr + 1 ..< prop_addr + 1 + ?size]"
      have "?size \<le> 8"
        using size_field_bound [of "data ! prop_addr"] by simp
      then have "\<forall>a \<in> set ?reads. a < length data"
        using "1.prems" inside by auto
      from "1.IH" [OF inside refl False refl refl refl this]
      show ?thesis
        using inside False by (subst props_loop_traced.simps) (simp add: Let_def)
    qed
  qed
qed

lemma has_property_loop_reads:
  "\<forall>a \<in> set reads. a < length data \<Longrightarrow>
   \<forall>a \<in> set (snd (has_property_loop ver data prop_num prop_addr reads)). a < length data"
proof (induction ver data prop_num prop_addr reads rule: has_property_loop.induct)
  case (1 ver data prop_num prop_addr reads)
  show ?case
  proof (cases "prop_addr < length data")
    case False
    then show ?thesis
      using "1.prems" by (subst has_property_loop.simps) simp
  next
    case inside: True
    have r1: "\<forall>a \<in> set (reads @ [prop_addr]). a < length data"
      using "1.prems" inside by simp
    have r2: "\<forall>a \<in> set ((reads @ [prop_addr]) @ [prop_addr + 1]). a < length data"
      if "\<not> length data \<le> prop_addr + 1"
      using r1 that by simp
    show ?thesis
      using inside r1 r2
        "1.IH"(1) [OF inside refl refl _ _ refl refl _ r1]
        "1.IH"(2) [OF inside refl refl _ _ refl _ refl _ refl refl refl _ r2]
        "1.IH"(3) [OF inside refl refl _ _ refl _ refl _ r1]
      by (subst has_property_loop.simps) (simp add: Let_def)
  qed
qed

lemma get_object_properties_traced_fst:
  "fst (get_object_properties_traced P data n) = get_object_properties P data n"
  by (simp add: get_object_properties_traced_def get_object_properties_def Let_def
      props_loop_traced_fst split: sum.splits option.splits)

lemma get_object_properties_traced_reads:
  "\<forall>a \<in> set (snd (get_object_properties_traced P data n)). a < length data"
proof (cases "get_object P n")
  case (Inl e)
  then show ?thesis by (simp add: get_object_properties_traced_def)
next
  case (Inr r)
  show ?thesis
  proof (cases r)
    case None
    then show ?thesis using Inr by (simp add: get_object_properties_traced_def)
  next
    case (Some obj)
    show ?thesis
    proof (cases "length data \<le> properties obj")
      case True
      then show ?thesis using Inr Some by (simp add: get_object_properties_traced_def)
    next
      case False
      then have "\<forall>a \<in> set [properties obj]. a < length data" by simp
      from props_loop_traced_reads [OF this] show ?thesis
        using Inr Some False by (simp add: get_object_properties_traced_def Let_def)
    qed
  qed
qed

lemma has_property_traced_reads:
  "\<forall>a \<in> set (snd (has_property_traced P data n prop_num)). a < length data"
proof (cases "get_object P n")
  case (Inl e)
  then show ?thesis by (simp add: has_property_traced_def)
next
  case (Inr r)
  show ?thesis
  proof (cases r)
    case None
    then show ?thesis using Inr by (simp add: has_property_traced_def)
  next
    case (Some obj)
    show ?thesis
    proof (cases "length data \<le> properties obj")
      case True
      then show ?thesis using Inr Some by (simp add: has_property_traced_def)
    next
      case False
      then have "\<forall>a \<in> set [properties obj]. a < length data" by simp
      from has_property_loop_reads [OF this] show ?thesis
        using Inr Some False by (simp add: has_property_traced_def Let_def)
    qed
  qed
qed

text \<open>
  Claim C7. An object whose property-table address is at or beyond the length of the
  image gets the empty table, without any read; the model of
  \<^verbatim>\<open>_get_object_properties\<close> has no exceptional result, as the bare \<^verbatim>\<open>except\<close> leaves
  none. The logged decoder computes the same table as the plain one, and every address
  that \<^verbatim>\<open>_get_object_properties\<close> or \<^verbatim>\<open>_has_property\<close> asks for, whatever the size
  bytes are, is below the length of the image.
\<close>

theorem decoding_in_bounds:
  "(get_object P n = Inr (Some obj) \<and> length data \<le> properties obj \<longrightarrow>
      get_object_properties P data n = []
      \<and> snd (get_object_properties_traced P data n) = [])
   \<and> fst (get_object_properties_traced P data n) = get_object_properties P data n
   \<and> (\<forall>a \<in> set (snd (get_object_properties_traced P data n)). a < length data)
   \<and> (\<forall>a \<in> set (snd (has_property_traced P data n prop_num)). a < length data)"
  using get_object_properties_traced_reads [of P data n]
    has_property_traced_reads [of P data n prop_num]
  by (simp add: get_object_properties_traced_fst)
     (simp add: get_object_properties_def get_object_properties_traced_def)

theorem decoding_in_bounds_witness:
  "get_object (kitchen_parser\<lparr>get_object := \<lambda>n. Inr (Some \<lparr>parent = 0, properties = 31\<rparr>)\<rparr>) 1
      = Inr (Some \<lparr>parent = 0, properties = 31\<rparr>)
   \<and> length kitchen_data \<le> properties \<lparr>parent = 0, properties = 31\<rparr>
   \<and> get_object_properties
        (kitchen_parser\<lparr>get_object := \<lambda>n. Inr (Some \<lparr>parent = 0, properties = 31\<rparr>)\<rparr>)
        kitchen_data 1 = []
   \<and> snd (get_object_properties_traced kitchen_parser kitchen_data 142) = [0, 1, 2, 3, 4, 5]
   \<and> snd (has_property_traced kitchen_parser kitchen_data 142 14) = [0, 1, 3]
   \<and> 5 < length kitchen_data"
proof -
  have a: "get_object (kitchen_parser\<lparr>get_object := \<lambda>n. Inr (Some \<lparr>parent = 0, properties = 31\<rparr>)\<rparr>) 1
      = Inr (Some \<lparr>parent = 0, properties = 31\<rparr>)"
    by simp
  have b: "length kitchen_data \<le> properties \<lparr>parent = 0, properties = 31\<rparr>"
    by (simp add: kitchen_data_def)
  have c: "snd (get_object_properties_traced kitchen_parser kitchen_data 142) = [0, 1, 2, 3, 4, 5]"
    by (simp add: get_object_properties_traced_def kitchen_parser_def kitchen_data_def
        props_loop_traced.simps slice_def Let_def upt_rec)
  have d: "snd (has_property_traced kitchen_parser kitchen_data 142 14) = [0, 1, 3]"
    by (simp add: has_property_traced_def kitchen_parser_def kitchen_data_def
        has_property_loop.simps Let_def)
  have e: "5 < length kitchen_data"
    using decoding_in_bounds [of kitchen_parser 142 _ kitchen_data 14] c by simp
  show ?thesis
    using a b c d e
      decoding_in_bounds [of "kitchen_parser\<lparr>get_object := \<lambda>n. Inr (Some \<lparr>parent = 0, properties = 31\<rparr>)\<rparr>"
        1 "\<lparr>parent = 0, properties = 31\<rparr>" kitchen_data 14]
    by simp
qed

subsection \<open>Name validity\<close>

lemma is_valid_name_iff:
  "is_valid_name U name \<longleftrightarrow>
     name \<noteq> [] \<and> 7 * length name \<le> 10 * length (filter (valid_char U) name)"
proof (cases "name = []")
  case True
  then show ?thesis by (simp add: is_valid_name_def)
next
  case False
  let ?p = "length (filter (valid_char U) name)"
  let ?t = "length name"
  have pos: "0 < real ?t" using False by simp
  have "0.7 \<le> real ?p / real ?t \<longleftrightarrow> 0.7 * real ?t \<le> real ?p"
    using pos by (simp add: pos_le_divide_eq)
  also have "\<dots> \<longleftrightarrow> real (7 * ?t) \<le> real (10 * ?p)"
    by (simp add: mult.commute)
  also have "\<dots> \<longleftrightarrow> 7 * ?t \<le> 10 * ?p"
    by (rule of_nat_le_iff)
  finally show ?thesis
    using False by (simp add: is_valid_name_def Let_def)
qed

lemma room_like_valid:
  "room_like U P n \<Longrightarrow> \<exists>name. get_object_name P n = Inr name \<and> is_valid_name U name"
  by (auto simp: room_like_def split: sum.splits option.splits)

lemma second_pass_keys:
  "fst ` set (second_pass U P c ns rooms) =
     fst ` set rooms \<union> {n \<in> set ns. room_like U P n \<and> parent_of P n = Some c}"
proof (induction ns arbitrary: rooms)
  case Nil
  then show ?case by simp
next
  case (Cons n ns)
  show ?case
  proof (cases "room_like U P n \<and> parent_of P n = Some c")
    case True
    then obtain obj name where "get_object P n = Inr (Some obj)" "parent obj = c"
      "get_object_name P n = Inr name" "name \<noteq> []" "strip U name \<noteq> []" "is_valid_name U name"
      by (auto simp: room_like_def parent_of_def split: sum.splits option.splits)
    then show ?thesis
      using True by (auto simp: Cons.IH dom_update)
  next
    case False
    then have "second_pass U P c (n # ns) rooms = second_pass U P c ns rooms"
      by (auto simp: room_like_def parent_of_def split: sum.splits option.splits)
    then show ?thesis
      using False by (auto simp: Cons.IH)
  qed
qed

lemma fallback_scan_keys_sub:
  "k \<in> fst ` set (fallback_scan U P ns rooms) \<Longrightarrow>
   k \<in> fst ` set rooms \<or> (k \<in> set ns \<and> room_like U P k)"
proof (induction ns arbitrary: rooms)
  case Nil
  then show ?case by simp
next
  case (Cons n ns)
  show ?case
  proof (cases "room_like U P n \<and> n \<notin> fst ` set rooms")
    case True
    then obtain obj name where "get_object P n = Inr (Some obj)"
      "get_object_name P n = Inr name" "name \<noteq> []" "strip U name \<noteq> []" "is_valid_name U name"
      by (auto simp: room_like_def split: sum.splits option.splits)
    then have eq: "fallback_scan U P (n # ns) rooms = fallback_scan U P ns (AList.update n
          \<lparr>r_obj_num = n, r_name = name, r_exits = [], r_objects = []\<rparr> rooms)"
      using True by simp
    from Cons.prems have "k \<in> fst ` set (fallback_scan U P ns (AList.update n
          \<lparr>r_obj_num = n, r_name = name, r_exits = [], r_objects = []\<rparr> rooms))"
      by (simp only: eq)
    from Cons.IH [OF this] show ?thesis
      using True by (auto simp: dom_update)
  next
    case False
    then have "fallback_scan U P (n # ns) rooms = fallback_scan U P ns rooms
      \<or> fallback_scan U P (n # ns) rooms = rooms"
      by (auto simp: room_like_def split: sum.splits option.splits)
    then show ?thesis
    proof (elim disjE)
      assume 1: "fallback_scan U P (n # ns) rooms = fallback_scan U P ns rooms"
      from Cons.prems have "k \<in> fst ` set (fallback_scan U P ns rooms)"
        by (simp only: 1)
      from Cons.IH [OF this] show ?thesis by auto
    next
      assume 2: "fallback_scan U P (n # ns) rooms = rooms"
      from Cons.prems show ?thesis by (simp only: 2) simp
    qed
  qed
qed

lemma objects_loop_nums:
  "k \<in> g_obj_num ` set (objects_loop U P data ns objs) \<Longrightarrow>
   k \<in> g_obj_num ` set objs \<or> (k \<in> set ns \<and> room_like U P k)"
proof (induction ns arbitrary: objs)
  case Nil
  then show ?case by simp
next
  case (Cons n ns)
  show ?case
  proof (cases "room_like U P n")
    case True
    then obtain obj name where on: "get_object P n = Inr (Some obj)"
      "get_object_name P n = Inr name" "name \<noteq> []" "strip U name \<noteq> []" "is_valid_name U name"
      by (auto simp: room_like_def split: sum.splits option.splits)
    let ?objs = "objs @ [\<lparr>g_obj_num = n, g_name = name, g_location = parent obj\<rparr>]"
    have "objects_loop U P data (n # ns) objs = objects_loop U P data ns objs
      \<or> objects_loop U P data (n # ns) objs = objects_loop U P data ns ?objs"
      using on by (auto simp: Let_def)
    then show ?thesis
    proof (elim disjE)
      assume 1: "objects_loop U P data (n # ns) objs = objects_loop U P data ns objs"
      from Cons.prems have "k \<in> g_obj_num ` set (objects_loop U P data ns objs)"
        by (simp only: 1)
      from Cons.IH [OF this] show ?thesis by auto
    next
      assume 2: "objects_loop U P data (n # ns) objs = objects_loop U P data ns ?objs"
      from Cons.prems have "k \<in> g_obj_num ` set (objects_loop U P data ns ?objs)"
        by (simp only: 2)
      from Cons.IH [OF this] show ?thesis using True by auto
    qed
  next
    case False
    then have "objects_loop U P data (n # ns) objs = objects_loop U P data ns objs
      \<or> objects_loop U P data (n # ns) objs = objs"
      by (auto simp: room_like_def split: sum.splits option.splits)
    then show ?thesis
    proof (elim disjE)
      assume 1: "objects_loop U P data (n # ns) objs = objects_loop U P data ns objs"
      from Cons.prems have "k \<in> g_obj_num ` set (objects_loop U P data ns objs)"
        by (simp only: 1)
      from Cons.IH [OF this] show ?thesis by auto
    next
      assume 2: "objects_loop U P data (n # ns) objs = objs"
      from Cons.prems show ?thesis by (simp only: 2) simp
    qed
  qed
qed

lemma find_rooms_keys_sub:
  assumes "k \<in> fst ` set (find_rooms U P data rooms)"
  shows "k \<in> fst ` set rooms \<or> room_like U P k"
proof -
  have a: "k \<in> fst ` set rooms \<or> room_like U P k"
    if "k \<in> fst ` set (cluster_rooms U P data rooms)"
    using that by (auto simp: cluster_rooms_def second_pass_keys)
  show ?thesis
  proof (cases "length (cluster_rooms U P data rooms) < 10")
    case True
    then have "k \<in> fst ` set (fallback_scan U P [142..<min (max_obj P) 300]
        (cluster_rooms U P data rooms))"
      using assms by (simp add: find_rooms_def Let_def)
    from fallback_scan_keys_sub [OF this] a show ?thesis by blast
  next
    case False
    then have "k \<in> fst ` set (cluster_rooms U P data rooms)"
      using assms by (simp add: find_rooms_def Let_def)
    then show ?thesis by (rule a)
  qed
qed

lemma find_objects_nums:
  assumes "k \<in> g_obj_num ` set (find_objects U P data rooms objs)"
  shows "k \<in> g_obj_num ` set objs \<or> room_like U P k"
proof (cases "rooms = []")
  case True
  then show ?thesis using assms by (simp add: find_objects_def)
next
  case False
  then have "k \<in> g_obj_num ` set (objects_loop U P data [1..<Min (fst ` set rooms)] objs)"
    using assms by (simp add: find_objects_def Let_def)
  from objects_loop_nums [OF this] show ?thesis by blast
qed

text \<open>
  Claim C6. A name is accepted exactly when it is not empty and at least 70 percent
  of its characters pass the character test (printable, and alphanumeric or one of the
  listed punctuation marks). An object whose name fails the test, so in particular one
  with only 40 percent of such characters, is in neither the rooms that
  \<^verbatim>\<open>_find_rooms\<close> collects nor the objects that \<^verbatim>\<open>_find_objects\<close> collects, on a fresh
  extractor and whatever its properties are.
\<close>

theorem garbled_name_excluded:
  "(is_valid_name U name \<longleftrightarrow>
      name \<noteq> [] \<and> 7 * length name \<le> 10 * length (filter (valid_char U) name))
   \<and> (get_object_name P n = Inr name
        \<and> 10 * length (filter (valid_char U) name) < 7 * length name \<longrightarrow>
        \<not> is_valid_name U name
        \<and> n \<notin> fst ` set (find_rooms U P data [])
        \<and> n \<notin> g_obj_num ` set (find_objects U P data rooms []))"
proof (intro conjI impI)
  show "is_valid_name U name \<longleftrightarrow>
      name \<noteq> [] \<and> 7 * length name \<le> 10 * length (filter (valid_char U) name)"
    by (rule is_valid_name_iff)
next
  assume h: "get_object_name P n = Inr name
        \<and> 10 * length (filter (valid_char U) name) < 7 * length name"
  then show inv: "\<not> is_valid_name U name"
    by (simp add: is_valid_name_iff)
  then have "\<not> room_like U P n"
    using h room_like_valid [of U P n] by auto
  then show "n \<notin> fst ` set (find_rooms U P data [])"
    and "n \<notin> g_obj_num ` set (find_objects U P data rooms [])"
    using find_rooms_keys_sub [of n U P data "[]"] find_objects_nums [of n U P data rooms "[]"]
    by auto
qed

lemma garbled_count:
  "length (filter (valid_char ascii) (''ab'' @ [CHR 0x01, CHR 0x02, CHR 0x03])) = 2"
  by (simp add: valid_char_def ascii_def)

theorem garbled_name_excluded_witness:
  "get_object_name garbled_parser 142 = Inr (''ab'' @ [CHR 0x01, CHR 0x02, CHR 0x03])
   \<and> 10 * length (filter (valid_char ascii) (''ab'' @ [CHR 0x01, CHR 0x02, CHR 0x03]))
       = 4 * length (''ab'' @ [CHR 0x01, CHR 0x02, CHR 0x03])
   \<and> \<not> is_valid_name ascii (''ab'' @ [CHR 0x01, CHR 0x02, CHR 0x03])
   \<and> 142 \<notin> fst ` set (find_rooms ascii garbled_parser kitchen_data [])
   \<and> 142 \<notin> g_obj_num ` set (find_objects ascii garbled_parser kitchen_data kitchen_rooms [])"
proof -
  have a: "get_object_name garbled_parser 142 = Inr (''ab'' @ [CHR 0x01, CHR 0x02, CHR 0x03])"
    by (simp add: garbled_parser_def)
  have b: "10 * length (filter (valid_char ascii) (''ab'' @ [CHR 0x01, CHR 0x02, CHR 0x03]))
       = 4 * length (''ab'' @ [CHR 0x01, CHR 0x02, CHR 0x03])"
    by (simp only: garbled_count) simp
  have c: "10 * length (filter (valid_char ascii) (''ab'' @ [CHR 0x01, CHR 0x02, CHR 0x03]))
       < 7 * length (''ab'' @ [CHR 0x01, CHR 0x02, CHR 0x03])"
    by (simp only: garbled_count) simp
  from garbled_name_excluded [of ascii "''ab'' @ [CHR 0x01, CHR 0x02, CHR 0x03]"
      garbled_parser 142 kitchen_data kitchen_rooms] a b c
  show ?thesis by blast
qed

subsection \<open>The scans of room identification\<close>

lemma room_like_decodes: "room_like U P n \<Longrightarrow> \<not> undecodable P n"
  by (auto simp: room_like_def undecodable_def split: sum.splits option.splits)

lemma fallback_scan_keys:
  "fst ` set (fallback_scan U P ns rooms) = fallback_keys U P ns (fst ` set rooms)"
proof (induction ns arbitrary: rooms)
  case Nil
  then show ?case by simp
next
  case (Cons n ns)
  show ?case
  proof (cases "n \<in> fst ` set rooms")
    case True
    then show ?thesis using Cons.IH [of rooms] by simp
  next
    case out: False
    show ?thesis
    proof (cases "room_like U P n")
      case True
      then obtain obj name where "get_object P n = Inr (Some obj)"
        "get_object_name P n = Inr name" "name \<noteq> []" "strip U name \<noteq> []" "is_valid_name U name"
        by (auto simp: room_like_def split: sum.splits option.splits)
      then have eq: "fallback_scan U P (n # ns) rooms = fallback_scan U P ns (AList.update n
            \<lparr>r_obj_num = n, r_name = name, r_exits = [], r_objects = []\<rparr> rooms)"
        using out by simp
      have "fallback_keys U P (n # ns) (fst ` set rooms)
          = fallback_keys U P ns (insert n (fst ` set rooms))"
        using out True room_like_decodes [OF True] by simp
      then show ?thesis
        by (simp only: eq Cons.IH dom_update) simp
    next
      case False
      show ?thesis
      proof (cases "undecodable P n")
        case True
        then have "fallback_scan U P (n # ns) rooms = rooms"
          using out by (simp add: undecodable_def)
        moreover have "fallback_keys U P (n # ns) (fst ` set rooms) = fst ` set rooms"
          using out True by simp
        ultimately show ?thesis by (simp only:)
      next
        case dec: False
        have "fallback_scan U P (n # ns) rooms = fallback_scan U P ns rooms"
          using out False dec
          by (auto simp: room_like_def undecodable_def split: sum.splits option.splits)
        moreover have "fallback_keys U P (n # ns) (fst ` set rooms)
            = fallback_keys U P ns (fst ` set rooms)"
          using out False dec by simp
        ultimately show ?thesis by (simp only: Cons.IH)
      qed
    qed
  qed
qed

lemma fallback_keys_mono: "K \<subseteq> fallback_keys U P ns K"
proof (induction ns arbitrary: K)
  case Nil
  then show ?case by simp
next
  case (Cons n ns)
  show ?case
    using Cons.IH [of K] Cons.IH [of "insert n K"] by auto
qed

lemma fallback_keys_sub:
  "fallback_keys U P ns K \<subseteq> K \<union> {n \<in> set ns. room_like U P n}"
proof (induction ns arbitrary: K)
  case Nil
  then show ?case by simp
next
  case (Cons n ns)
  show ?case
    using Cons.IH [of K] Cons.IH [of "insert n K"] by auto
qed

lemma fallback_keys_absorb:
  "K \<subseteq> K' \<Longrightarrow> K' \<subseteq> fallback_keys U P ns K \<Longrightarrow>
   fallback_keys U P ns K' = fallback_keys U P ns K"
proof (induction ns arbitrary: K K')
  case Nil
  then show ?case by auto
next
  case (Cons n ns)
  show ?case
  proof (cases "n \<in> K")
    case True
    then have "n \<in> K'" using Cons.prems by auto
    then show ?thesis
      using True Cons.prems Cons.IH [of K K'] by simp
  next
    case out: False
    show ?thesis
    proof (cases "undecodable P n")
      case True
      then have "fallback_keys U P (n # ns) K = K" using out by simp
      then have "K' = K" using Cons.prems by auto
      then show ?thesis by simp
    next
      case dec: False
      show ?thesis
      proof (cases "room_like U P n")
        case True
        have step: "fallback_keys U P (n # ns) K = fallback_keys U P ns (insert n K)"
          using out dec True by simp
        have n_in: "n \<in> fallback_keys U P ns (insert n K)"
          using fallback_keys_mono [of "insert n K" U P ns] by auto
        show ?thesis
        proof (cases "n \<in> K'")
          case True
          have "fallback_keys U P ns K' = fallback_keys U P ns (insert n K)"
            using Cons.prems True step by (intro Cons.IH) auto
          then show ?thesis using True step by simp
        next
          case False
          have "fallback_keys U P ns (insert n K') = fallback_keys U P ns (insert n K)"
            using Cons.prems step n_in by (intro Cons.IH) auto
          then show ?thesis using False dec \<open>room_like U P n\<close> step by simp
        qed
      next
        case False
        have step: "fallback_keys U P (n # ns) K = fallback_keys U P ns K"
          using out dec False by simp
        have "n \<notin> K'"
          using Cons.prems(2) fallback_keys_sub [of U P ns K] out False
          by (auto simp only: step)
        moreover have "fallback_keys U P ns K' = fallback_keys U P ns K"
          using Cons.prems step by (intro Cons.IH) auto
        ultimately show ?thesis using dec False step by simp
      qed
    qed
  qed
qed

lemma fallback_keys_reach:
  "(\<And>m. m \<in> set pre \<Longrightarrow> m \<in> K \<or> \<not> undecodable P m) \<Longrightarrow> room_like U P n \<Longrightarrow>
   n \<in> fallback_keys U P (pre @ n # post) K"
proof (induction pre arbitrary: K)
  case Nil
  then show ?case
    using fallback_keys_mono [of K U P post] fallback_keys_mono [of "insert n K" U P post]
      room_like_decodes [of U P n]
    by auto
next
  case (Cons x pre)
  have a: "n \<in> fallback_keys U P (pre @ n # post) K"
    using Cons.prems by (intro Cons.IH) auto
  have b: "n \<in> fallback_keys U P (pre @ n # post) (insert x K)"
    using Cons.prems by (intro Cons.IH) auto
  have "x \<in> K \<or> \<not> undecodable P x"
    using Cons.prems(1) by simp
  then show ?case using a b by auto
qed

lemma fallback_keys_stop:
  "undecodable P m \<Longrightarrow> m \<notin> K \<Longrightarrow>
   fallback_keys U P (pre @ m # post) K \<subseteq> K \<union> set pre"
proof (induction pre arbitrary: K)
  case Nil
  then show ?case by simp
next
  case (Cons x pre)
  have a: "fallback_keys U P (pre @ m # post) K \<subseteq> K \<union> set pre"
    using Cons.prems by (intro Cons.IH)
  have b: "fallback_keys U P (pre @ m # post) (insert x K) \<subseteq> insert x K \<union> set pre"
    if "room_like U P x"
    using Cons.prems that room_like_decodes [OF that] by (intro Cons.IH) auto
  show ?case using a b by auto
qed

lemma upt_split:
  "a \<le> n \<Longrightarrow> n < b \<Longrightarrow> [a..<b] = [a..<n] @ n # [Suc n..<b]"
proof -
  assume "a \<le> n" "n < b"
  then have "[a..<b] = [a..<n] @ [n..<b]"
    using upt_add_eq_append [of a n "b - n"] by simp
  then show ?thesis
    using \<open>n < b\<close> by (simp add: upt_conv_Cons)
qed

lemma second_pass_length: "length rooms \<le> length (second_pass U P c ns rooms)"
proof (induction ns arbitrary: rooms)
  case Nil
  then show ?case by simp
next
  case (Cons n ns)
  have "length rooms \<le> length (AList.update n v rooms)" for v :: room
    by (induction rooms) auto
  then have "length rooms \<le> length (second_pass U P c ns (AList.update n v rooms))" for v :: room
    using Cons.IH [of "AList.update n v rooms"] by (rule order_trans)
  then show ?case
    using Cons.IH [of rooms] by (auto split: sum.splits option.splits)
qed

lemma first_pass_no_candidate:
  "(\<And>n. n \<in> set ns \<Longrightarrow> \<not> (room_like U P n \<and> has_exit_properties P data n)) \<Longrightarrow>
   first_pass U P data ns parent_counts = parent_counts"
proof (induction ns)
  case Nil
  then show ?case by simp
next
  case (Cons n ns)
  have "\<not> (room_like U P n \<and> has_exit_properties P data n)"
    using Cons.prems by simp
  then have "first_pass U P data (n # ns) parent_counts = first_pass U P data ns parent_counts"
    by (auto simp: room_like_def split: sum.splits option.splits)
  then show ?case using Cons by simp
qed

subsection \<open>Room identification\<close>

lemma cluster_rooms_keys:
  "fst ` set (cluster_rooms U P data rooms) =
     fst ` set rooms \<union> {n \<in> set [1..<min (max_obj P) 256].
        room_like U P n \<and> parent_of P n = Some (rooms_container U P data)}"
  by (simp add: cluster_rooms_def second_pass_keys)

lemma find_rooms_keys:
  "fst ` set (find_rooms U P data rooms) =
     (if length (cluster_rooms U P data rooms) < 10
      then fallback_keys U P [142..<min (max_obj P) 300]
             (fst ` set (cluster_rooms U P data rooms))
      else fst ` set (cluster_rooms U P data rooms))"
  by (simp add: find_rooms_def Let_def fallback_scan_keys)

lemma cluster_in_find_rooms:
  "fst ` set (cluster_rooms U P data rooms) \<subseteq> fst ` set (find_rooms U P data rooms)"
  using fallback_keys_mono [of "fst ` set (cluster_rooms U P data rooms)" U P]
  by (simp add: find_rooms_keys)

lemma fallback_reach:
  assumes "length (cluster_rooms U P data rooms) < 10"
    and "142 \<le> n" and "n < min (max_obj P) 300" and "room_like U P n"
    and "\<And>m. 142 \<le> m \<Longrightarrow> m < n \<Longrightarrow> m \<notin> fst ` set (cluster_rooms U P data rooms)
            \<Longrightarrow> get_object P m \<noteq> Inr None"
  shows "n \<in> fst ` set (find_rooms U P data rooms)"
proof -
  let ?C = "fst ` set (cluster_rooms U P data rooms)"
  let ?lim = "min (max_obj P) 300"
  have keys: "fst ` set (find_rooms U P data rooms) = fallback_keys U P [142..<?lim] ?C"
    using assms(1) by (simp add: find_rooms_keys)
  have split: "[142..<?lim] = [142..<n] @ n # [Suc n..<?lim]"
    using assms(2,3) by (intro upt_split) auto
  have "n \<in> fallback_keys U P ([142..<n] @ n # [Suc n..<?lim]) ?C"
    using assms(4,5) by (intro fallback_keys_reach) (auto simp: undecodable_def)
  then show ?thesis
    by (simp only: keys split)
qed

lemma fallback_stop:
  assumes "length (cluster_rooms U P data rooms) < 10"
    and "142 \<le> m" and "m \<le> n" and "m < min (max_obj P) 300"
    and "get_object P m = Inr None"
    and "m \<notin> fst ` set (cluster_rooms U P data rooms)"
    and "n \<notin> fst ` set (cluster_rooms U P data rooms)"
  shows "n \<notin> fst ` set (find_rooms U P data rooms)"
proof -
  let ?C = "fst ` set (cluster_rooms U P data rooms)"
  let ?lim = "min (max_obj P) 300"
  have keys: "fst ` set (find_rooms U P data rooms) = fallback_keys U P [142..<?lim] ?C"
    using assms(1) by (simp add: find_rooms_keys)
  have split: "[142..<?lim] = [142..<m] @ m # [Suc m..<?lim]"
    using assms(2,4) by (intro upt_split) auto
  have "fallback_keys U P ([142..<m] @ m # [Suc m..<?lim]) ?C \<subseteq> ?C \<union> set [142..<m]"
    using assms(5,6) by (intro fallback_keys_stop) (auto simp: undecodable_def)
  moreover have "n \<notin> ?C \<union> set [142..<m]"
    using assms(3,7) by auto
  ultimately show ?thesis
    by (simp only: keys split) blast
qed

lemma fallback_only:
  assumes "length (cluster_rooms U P data rooms) < 10"
    and "n \<in> fst ` set (find_rooms U P data rooms)"
  shows "n \<in> fst ` set (cluster_rooms U P data rooms)
     \<or> (142 \<le> n \<and> n < min (max_obj P) 300 \<and> room_like U P n)"
proof -
  let ?C = "fst ` set (cluster_rooms U P data rooms)"
  let ?lim = "min (max_obj P) 300"
  have keys: "fst ` set (find_rooms U P data rooms) = fallback_keys U P [142..<?lim] ?C"
    using assms(1) by (simp add: find_rooms_keys)
  have "n \<in> ?C \<union> {n \<in> set [142..<?lim]. room_like U P n}"
    using assms(2) fallback_keys_sub [of U P "[142..<?lim]" ?C] by (simp only: keys) blast
  then show ?thesis by auto
qed

text \<open>
  Claim C5, as amended. When the rooms held after the clustering pass are fewer than 10,
  the result of room identification is the fallback scan of the objects 142, 143, ...
  up to, and excluding, \<open>min max_obj 300\<close> (255 up to version 3, 300 after), applied to
  them; objects that are rooms already are passed over. An object of that range becomes
  a room when it decodes (\<^verbatim>\<open>get_object\<close> returns an object and \<^verbatim>\<open>get_object_name\<close> a
  name, neither raising) with a name that is not blank and is valid, provided that
  \<^verbatim>\<open>get_object\<close> has returned \<^verbatim>\<open>None\<close> for no object before it in the scan; an object
  whose decoding raises does not end the scan. From the first object for which
  \<^verbatim>\<open>get_object\<close> returns \<^verbatim>\<open>None\<close> on, no object becomes a room. The scan adds nothing
  but objects of the range that decode with a valid name that is not blank.
\<close>

theorem fallback_range_scan:
  assumes "length (cluster_rooms U P data rooms) < 10"
  shows "find_rooms U P data rooms
       = fallback_scan U P [142..<min (max_obj P) 300] (cluster_rooms U P data rooms)
    \<and> (\<forall>n. 142 \<le> n \<and> n < min (max_obj P) 300 \<and> room_like U P n
          \<and> (\<forall>m. 142 \<le> m \<and> m < n \<and> m \<notin> fst ` set (cluster_rooms U P data rooms)
                \<longrightarrow> get_object P m \<noteq> Inr None)
          \<longrightarrow> n \<in> fst ` set (find_rooms U P data rooms))
    \<and> (\<forall>m n. 142 \<le> m \<and> m \<le> n \<and> m < min (max_obj P) 300 \<and> get_object P m = Inr None
          \<and> m \<notin> fst ` set (cluster_rooms U P data rooms)
          \<and> n \<notin> fst ` set (cluster_rooms U P data rooms)
          \<longrightarrow> n \<notin> fst ` set (find_rooms U P data rooms))
    \<and> (\<forall>n. n \<in> fst ` set (find_rooms U P data rooms)
          \<longrightarrow> n \<in> fst ` set (cluster_rooms U P data rooms)
              \<or> (142 \<le> n \<and> n < min (max_obj P) 300 \<and> room_like U P n))
    \<and> (\<forall>n. room_like U P n \<longleftrightarrow>
          (\<exists>obj name. get_object P n = Inr (Some obj) \<and> get_object_name P n = Inr name
             \<and> name \<noteq> [] \<and> strip U name \<noteq> [] \<and> is_valid_name U name))"
proof (intro conjI allI impI)
  show "find_rooms U P data rooms
       = fallback_scan U P [142..<min (max_obj P) 300] (cluster_rooms U P data rooms)"
    using assms by (simp add: find_rooms_def Let_def)
next
  fix n
  assume h: "142 \<le> n \<and> n < min (max_obj P) 300 \<and> room_like U P n
          \<and> (\<forall>m. 142 \<le> m \<and> m < n \<and> m \<notin> fst ` set (cluster_rooms U P data rooms)
                \<longrightarrow> get_object P m \<noteq> Inr None)"
  then show "n \<in> fst ` set (find_rooms U P data rooms)"
    using assms by (intro fallback_reach) auto
next
  fix m n
  assume "142 \<le> m \<and> m \<le> n \<and> m < min (max_obj P) 300 \<and> get_object P m = Inr None
          \<and> m \<notin> fst ` set (cluster_rooms U P data rooms)
          \<and> n \<notin> fst ` set (cluster_rooms U P data rooms)"
  then show "n \<notin> fst ` set (find_rooms U P data rooms)"
    using assms fallback_stop [of U P data rooms m n] by blast
next
  fix n
  assume "n \<in> fst ` set (find_rooms U P data rooms)"
  then show "n \<in> fst ` set (cluster_rooms U P data rooms)
              \<or> (142 \<le> n \<and> n < min (max_obj P) 300 \<and> room_like U P n)"
    using assms by (intro fallback_only)
next
  fix n
  show "room_like U P n \<longleftrightarrow>
          (\<exists>obj name. get_object P n = Inr (Some obj) \<and> get_object_name P n = Inr name
             \<and> name \<noteq> [] \<and> strip U name \<noteq> [] \<and> is_valid_name U name)"
    by (auto simp: room_like_def split: sum.splits option.splits)
qed

text \<open>
  Claim C9. Running room identification again on the rooms it has produced gives the
  same set of room identifiers, from whatever rooms the extractor held at first.
\<close>

theorem find_rooms_idempotent:
  "fst ` set (find_rooms U P data (find_rooms U P data rooms))
     = fst ` set (find_rooms U P data rooms)"
proof -
  let ?ns = "[142..<min (max_obj P) 300]"
  let ?R1 = "find_rooms U P data rooms"
  let ?C1 = "cluster_rooms U P data rooms"
  let ?C2 = "cluster_rooms U P data ?R1"
  have sub: "fst ` set ?C1 \<subseteq> fst ` set ?R1"
    by (rule cluster_in_find_rooms)
  have C2: "fst ` set ?C2 = fst ` set ?R1"
    using sub by (auto simp: cluster_rooms_keys)
  show ?thesis
  proof (cases "length ?C1 < 10")
    case True
    then have R1: "fst ` set ?R1 = fallback_keys U P ?ns (fst ` set ?C1)"
      by (simp add: find_rooms_keys)
    have "fallback_keys U P ?ns (fst ` set ?R1) = fallback_keys U P ?ns (fst ` set ?C1)"
      using sub R1 by (intro fallback_keys_absorb) auto
    then show ?thesis
      using R1 by (simp add: find_rooms_keys [of U P data ?R1] C2)
  next
    case False
    then have R1: "?R1 = ?C1"
      by (simp add: find_rooms_def Let_def)
    have "length ?C1 \<le> length ?C2"
      unfolding R1 cluster_rooms_def by (rule second_pass_length)
    then have "\<not> length ?C2 < 10" using False by simp
    then show ?thesis
      by (simp add: find_rooms_keys [of U P data ?R1] C2)
  qed
qed

text \<open>
  Claim C10, as amended. When the first pass counts no parent (no scanned object that
  decodes with a valid name that is not blank has more than three properties), the
  container is 27 and the identification goes on: every object numbered from 1 up to,
  and excluding, \<open>min max_obj 256\<close> (1 to 254 up to version 3, 1 to 255 after) that
  decodes without raising, whose name is not blank and is valid, and whose parent is
  object 27 is a room of the result.
\<close>

theorem default_container:
  assumes "\<forall>m \<in> set [1..<min (max_obj P) 256].
             \<not> (room_like U P m \<and> has_exit_properties P data m)"
    and "1 \<le> n" and "n < min (max_obj P) 256"
    and "get_object P n = Inr (Some obj)" and "parent obj = 27"
    and "get_object_name P n = Inr name"
    and "name \<noteq> []" and "strip U name \<noteq> []" and "is_valid_name U name"
  shows "first_pass U P data [1..<min (max_obj P) 256] [] = []
    \<and> rooms_container U P data = 27
    \<and> n \<in> fst ` set (find_rooms U P data rooms)"
proof -
  have fp: "first_pass U P data [1..<min (max_obj P) 256] [] = []"
    using assms(1) by (intro first_pass_no_candidate) blast
  then have c: "rooms_container U P data = 27"
    by (simp add: rooms_container_def)
  have "room_like U P n" "parent_of P n = Some 27"
    using assms(4-9) by (simp_all add: room_like_def parent_of_def)
  then have "n \<in> fst ` set (cluster_rooms U P data rooms)"
    using assms(2,3) c by (simp add: cluster_rooms_keys)
  then show ?thesis
    using fp c cluster_in_find_rooms [of U P data rooms] by blast
qed

subsection \<open>Room identification on the small images\<close>

lemma distinct_second_pass:
  "distinct (map fst rooms) \<Longrightarrow> distinct (map fst (second_pass U P c ns rooms))"
proof (induction ns arbitrary: rooms)
  case Nil
  then show ?case by simp
next
  case (Cons n ns)
  have "distinct (map fst (second_pass U P c ns (AList.update n v rooms)))" for v :: room
    using Cons.prems by (intro Cons.IH) (simp add: distinct_update)
  then show ?case
    using Cons.IH [OF Cons.prems] by (auto split: sum.splits option.splits)
qed

lemma length_cluster_rooms:
  "length (cluster_rooms U P data []) = card (fst ` set (cluster_rooms U P data []))"
proof -
  have "distinct (map fst (cluster_rooms U P data []))"
    unfolding cluster_rooms_def by (rule distinct_second_pass) simp
  from distinct_card [OF this] show ?thesis by simp
qed

lemma fixture_names:
  "is_valid_name ascii ''Kitchen''" "is_valid_name ascii ''Cellar''"
  "is_valid_name ascii ''Attic''" "is_valid_name ascii ''Vault''"
  "strip ascii ''Kitchen'' \<noteq> []" "strip ascii ''Cellar'' \<noteq> []"
  "strip ascii ''Attic'' \<noteq> []" "strip ascii ''Vault'' \<noteq> []"
  by (simp_all add: is_valid_name_iff valid_char_def ascii_def strip_def)

lemma scattered_room_like:
  "room_like ascii scattered_parser n \<longleftrightarrow> n = 142 \<or> n = 143 \<or> n = 145"
  by (simp add: room_like_def scattered_parser_def fixture_names)

lemma scattered_parent_of:
  "parent_of scattered_parser n = Some 27 \<longleftrightarrow> n = 142"
  by (simp add: parent_of_def scattered_parser_def)

lemma scattered_undecodable:
  "undecodable scattered_parser n \<longleftrightarrow> n \<noteq> 142 \<and> n \<noteq> 143 \<and> n \<noteq> 145"
  by (simp add: undecodable_def scattered_parser_def)

lemma scattered_no_exit_properties:
  "\<not> has_exit_properties scattered_parser kitchen_data n"
  by (simp add: has_exit_properties_def scattered_parser_def kitchen_data_def
      has_exit_loop.simps Let_def)

lemma scattered_container: "rooms_container ascii scattered_parser kitchen_data = 27"
proof -
  have "first_pass ascii scattered_parser kitchen_data
      [1..<min (max_obj scattered_parser) 256] [] = []"
    by (intro first_pass_no_candidate) (simp add: scattered_no_exit_properties)
  then show ?thesis by (simp add: rooms_container_def)
qed

lemma scattered_max_obj: "max_obj scattered_parser = 255"
  by (simp add: max_obj_def scattered_parser_def)

lemma scattered_cluster:
  "fst ` set (cluster_rooms ascii scattered_parser kitchen_data []) = {142}"
  by (auto simp: cluster_rooms_keys scattered_container scattered_room_like
      scattered_parent_of scattered_max_obj)

theorem fallback_range_scan_witness:
  "length (cluster_rooms ascii scattered_parser kitchen_data []) < 10
   \<and> room_like ascii scattered_parser 143
   \<and> 143 \<in> fst ` set (find_rooms ascii scattered_parser kitchen_data [])
   \<and> get_object scattered_parser 144 = Inr None
   \<and> room_like ascii scattered_parser 145
   \<and> 145 \<notin> fst ` set (find_rooms ascii scattered_parser kitchen_data [])"
proof -
  have len: "length (cluster_rooms ascii scattered_parser kitchen_data []) < 10"
    by (simp add: length_cluster_rooms scattered_cluster)
  have lim: "min (max_obj scattered_parser) 300 = 255"
    by (simp add: scattered_max_obj)
  have none: "get_object scattered_parser 144 = Inr None"
    using scattered_undecodable [of 144] by (simp add: undecodable_def)
  note scan = fallback_range_scan [OF len, unfolded lim scattered_cluster]
  have "143 \<in> fst ` set (find_rooms ascii scattered_parser kitchen_data [])"
  proof -
    have "\<forall>m. 142 \<le> m \<and> m < 143 \<and> m \<notin> {142 :: nat}
        \<longrightarrow> get_object scattered_parser m \<noteq> Inr None"
      by auto
    then show ?thesis
      using scan [THEN conjunct2, THEN conjunct1, rule_format, of 143]
      by (simp add: scattered_room_like)
  qed
  moreover have "145 \<notin> fst ` set (find_rooms ascii scattered_parser kitchen_data [])"
    using scan [THEN conjunct2, THEN conjunct2, THEN conjunct1, rule_format, of 144 145] none
    by simp
  ultimately show ?thesis
    using len none by (simp add: scattered_room_like)
qed

text \<open>
  The claim as it was stated fails on the story whose object 143 raises: fewer than 10
  rooms are clustered, yet the scan does not stop at the object that cannot be decoded
  and classifies 144; the object 145 has a name that passes the validity test and is no
  room, its name being blank; and the named object 300 is no room although
  \<^verbatim>\<open>get_object\<close> returns \<^verbatim>\<open>None\<close> for no object from 142 to 300, the scan ending at 299.
\<close>

lemma blank_name: "is_valid_name ascii ''   ''" "strip ascii ''   '' = []"
  by (simp_all add: is_valid_name_iff valid_char_def ascii_def strip_def)

lemma thing_name: "is_valid_name ascii ''Thing''" "strip ascii ''Thing'' \<noteq> []"
  by (simp_all add: is_valid_name_iff valid_char_def ascii_def strip_def)

lemma relay_room_like:
  "room_like ascii relay_parser n \<longleftrightarrow> 1 \<le> n \<and> n \<le> 300 \<and> n \<noteq> 143 \<and> n \<noteq> 145"
  by (auto simp: room_like_def relay_parser_def thing_name blank_name)

lemma relay_parent_of: "parent_of relay_parser n \<noteq> Some 27"
  by (simp add: parent_of_def relay_parser_def)

lemma relay_decodes:
  "get_object relay_parser n = Inr None \<longleftrightarrow> \<not> (1 \<le> n \<and> n \<le> 300)"
  by (simp add: relay_parser_def)

lemma relay_no_exit_properties:
  "\<not> has_exit_properties relay_parser kitchen_data n"
  by (simp add: has_exit_properties_def relay_parser_def kitchen_data_def
      has_exit_loop.simps Let_def)

lemma relay_container: "rooms_container ascii relay_parser kitchen_data = 27"
proof -
  have "first_pass ascii relay_parser kitchen_data
      [1..<min (max_obj relay_parser) 256] [] = []"
    by (intro first_pass_no_candidate) (simp add: relay_no_exit_properties)
  then show ?thesis by (simp add: rooms_container_def)
qed

lemma relay_cluster: "fst ` set (cluster_rooms ascii relay_parser kitchen_data []) = {}"
  by (simp add: cluster_rooms_keys relay_container relay_parent_of)

theorem fallback_range_scan_counterexample:
  "length (cluster_rooms ascii relay_parser kitchen_data []) < 10
   \<and> get_object relay_parser 143 = Inl IndexError
   \<and> 144 \<in> fst ` set (find_rooms ascii relay_parser kitchen_data [])
   \<and> get_object_name relay_parser 145 = Inr ''   ''
   \<and> is_valid_name ascii ''   ''
   \<and> 145 \<notin> fst ` set (find_rooms ascii relay_parser kitchen_data [])
   \<and> list_all (\<lambda>m. get_object relay_parser m \<noteq> Inr None) [142..<301]
   \<and> room_like ascii relay_parser 300
   \<and> 300 \<notin> fst ` set (find_rooms ascii relay_parser kitchen_data [])"
proof -
  have len: "length (cluster_rooms ascii relay_parser kitchen_data []) < 10"
    by (simp add: length_cluster_rooms relay_cluster)
  have lim: "min (max_obj relay_parser) 300 = 300"
    by (simp add: max_obj_def relay_parser_def)
  have a: "144 \<in> fst ` set (find_rooms ascii relay_parser kitchen_data [])"
    using len by (intro fallback_reach) (simp_all add: lim relay_room_like relay_decodes)
  have b: "145 \<notin> fst ` set (find_rooms ascii relay_parser kitchen_data [])"
    using fallback_only [OF len, of 145] by (auto simp: relay_cluster relay_room_like)
  have c: "300 \<notin> fst ` set (find_rooms ascii relay_parser kitchen_data [])"
    using fallback_only [OF len, of 300] by (auto simp: relay_cluster lim)
  have d: "list_all (\<lambda>m. get_object relay_parser m \<noteq> Inr None) [142..<301]"
    by (simp add: list_all_iff relay_decodes)
  have e: "get_object relay_parser 143 = Inl IndexError"
    "get_object_name relay_parser 145 = Inr ''   ''"
    by (simp_all add: relay_parser_def)
  show ?thesis
    using len a b c d e by (simp add: blank_name relay_room_like)
qed

lemma kitchen_room_like:
  "room_like ascii kitchen_parser n \<longleftrightarrow> n = 142 \<or> n = 143 \<or> n = 144"
  by (simp add: room_like_def kitchen_parser_def fixture_names)

lemma kitchen_no_exit_properties:
  "\<not> has_exit_properties kitchen_parser kitchen_data n"
  by (simp add: has_exit_properties_def kitchen_parser_def kitchen_data_def
      has_exit_loop.simps Let_def)

theorem default_container_witness:
  "get_object kitchen_parser 142 = Inr (Some \<lparr>parent = 27, properties = 0\<rparr>)
   \<and> get_object_name kitchen_parser 142 = Inr ''Kitchen''
   \<and> first_pass ascii kitchen_parser kitchen_data [1..<min (max_obj kitchen_parser) 256] [] = []
   \<and> rooms_container ascii kitchen_parser kitchen_data = 27
   \<and> 142 \<in> fst ` set (find_rooms ascii kitchen_parser kitchen_data [])"
proof -
  have a: "\<forall>m \<in> set [1..<min (max_obj kitchen_parser) 256].
      \<not> (room_like ascii kitchen_parser m \<and> has_exit_properties kitchen_parser kitchen_data m)"
    by (simp add: kitchen_no_exit_properties)
  have b: "(1 :: nat) \<le> 142" "142 < min (max_obj kitchen_parser) 256"
    by (simp_all add: max_obj_def kitchen_parser_def)
  have c: "get_object kitchen_parser 142 = Inr (Some \<lparr>parent = 27, properties = 0\<rparr>)"
    "parent \<lparr>parent = 27, properties = 0\<rparr> = 27"
    "get_object_name kitchen_parser 142 = Inr ''Kitchen''"
    by (simp_all add: kitchen_parser_def)
  have d: "''Kitchen'' \<noteq> []" "strip ascii ''Kitchen'' \<noteq> []" "is_valid_name ascii ''Kitchen''"
    by (simp_all add: fixture_names)
  from default_container [OF a b c d, of "[]"] c show ?thesis by simp
qed

text \<open>
  The claim as it was stated fails on the story with 300 objects: no object is a room
  candidate and the container is 27. The vault (300) has a valid name and parent 27 and
  is no room of the result, because the second pass ends at object 255 and the fallback
  scan at object 299. Object 200 is scanned and under 27, its name of three blanks
  passes the validity test, and it is no room either, the name being blank.
\<close>

lemma vault_room_like:
  "room_like ascii vault_parser n \<longleftrightarrow> 1 \<le> n \<and> n \<le> 300 \<and> n \<noteq> 200"
  by (auto simp: room_like_def vault_parser_def fixture_names thing_name blank_name)

lemma vault_parent_of: "parent_of vault_parser n = Some 27 \<longleftrightarrow> n = 300 \<or> n = 200"
  by (auto simp: parent_of_def vault_parser_def)

lemma vault_no_exit_properties:
  "\<not> has_exit_properties vault_parser kitchen_data n"
  by (simp add: has_exit_properties_def vault_parser_def kitchen_data_def
      has_exit_loop.simps Let_def)

lemma vault_max_obj: "max_obj vault_parser = 2000"
  by (simp add: max_obj_def vault_parser_def)

theorem default_container_counterexample:
  "first_pass ascii vault_parser kitchen_data [1..<min (max_obj vault_parser) 256] [] = []
   \<and> rooms_container ascii vault_parser kitchen_data = 27
   \<and> room_like ascii vault_parser 300
   \<and> parent_of vault_parser 300 = Some 27
   \<and> 300 \<notin> fst ` set (find_rooms ascii vault_parser kitchen_data [])
   \<and> get_object_name vault_parser 200 = Inr ''   ''
   \<and> is_valid_name ascii ''   ''
   \<and> parent_of vault_parser 200 = Some 27
   \<and> 200 \<notin> fst ` set (find_rooms ascii vault_parser kitchen_data [])"
proof -
  have fp: "first_pass ascii vault_parser kitchen_data
      [1..<min (max_obj vault_parser) 256] [] = []"
    by (intro first_pass_no_candidate) (simp add: vault_no_exit_properties)
  then have c: "rooms_container ascii vault_parser kitchen_data = 27"
    by (simp add: rooms_container_def)
  have cl: "fst ` set (cluster_rooms ascii vault_parser kitchen_data []) = {}"
    by (auto simp: cluster_rooms_keys c vault_parent_of vault_room_like vault_max_obj)
  have sub: "fst ` set (find_rooms ascii vault_parser kitchen_data [])
      \<subseteq> fst ` set (cluster_rooms ascii vault_parser kitchen_data [])
        \<union> {n \<in> set [142..<min (max_obj vault_parser) 300]. room_like ascii vault_parser n}"
    using fallback_keys_sub [of ascii vault_parser "[142..<min (max_obj vault_parser) 300]"
        "fst ` set (cluster_rooms ascii vault_parser kitchen_data [])"]
    by (simp add: find_rooms_keys)
  have "300 \<notin> fst ` set (find_rooms ascii vault_parser kitchen_data [])"
    using sub by (auto simp: cl vault_max_obj)
  moreover have "200 \<notin> fst ` set (find_rooms ascii vault_parser kitchen_data [])"
    using sub by (auto simp: cl vault_room_like)
  moreover have "get_object_name vault_parser 200 = Inr ''   ''"
    by (simp add: vault_parser_def)
  ultimately show ?thesis
    using fp c by (simp add: vault_room_like vault_parent_of blank_name)
qed

end
